theory Spec2Isabelle
  imports Main "HOL-Library.Signed_Division"
begin

section \<open>Data model\<close>

text \<open>
  A Go \<^verbatim>\<open>Board\<close> is a slice of machine integers (\<^verbatim>\<open>type Board []int\<close>); it is modelled
  as a list of integers.  Indexing a slice outside \<open>0 \<le> i < len(b)\<close> panics; the panic is
  the error value \<open>IndexOutOfRange\<close>.  All index arithmetic of the modelled functions stays
  far below the range of a 64-bit integer whenever the access is inside the slice, so
  unbounded integers with Go's truncating division (\<open>sdiv\<close>, \<open>smod\<close>) are used.
\<close>

datatype error = IndexOutOfRange

type_synonym Board = "int list"

definition NewBoard :: "Board" where
  "NewBoard = replicate 81 0"

definition inRange :: "Board \<Rightarrow> int \<Rightarrow> bool" where
  "inRange b i = (0 \<le> i \<and> i < int (length b))"

text \<open>The read \<^verbatim>\<open>b[i]\<close> and the write \<^verbatim>\<open>b[i] = v\<close>.\<close>

definition cellAt :: "Board \<Rightarrow> int \<Rightarrow> error + int" where
  "cellAt b i = (if inRange b i then Inr (b ! nat i) else Inl IndexOutOfRange)"

definition setCell :: "Board \<Rightarrow> int \<Rightarrow> int \<Rightarrow> error + Board" where
  "setCell b i v = (if inRange b i then Inr (b[nat i := v]) else Inl IndexOutOfRange)"

section \<open>The legality check\<close>

definition blockOffsets :: "int list" where
  "blockOffsets = [0, 1, 2, 9, 10, 11, 18, 19, 20]"

text \<open>
  Each of the three loops of \<^verbatim>\<open>valuePossibleAt\<close> walks a sequence of indices and leaves
  at the first cell that holds \<open>v\<close>.  \<open>occursAt b v js\<close> is that walk over the indices
  \<open>js\<close>: \<open>Inr True\<close> when a cell holding \<open>v\<close> was met.
\<close>

fun occursAt :: "Board \<Rightarrow> int \<Rightarrow> int list \<Rightarrow> error + bool" where
  "occursAt b v [] = Inr False"
| "occursAt b v (j # js) =
     (case cellAt b j of
        Inl e \<Rightarrow> Inl e
      | Inr c \<Rightarrow> if c = v then Inr True else occursAt b v js)"

definition valuePossibleAt :: "Board \<Rightarrow> int \<Rightarrow> int \<Rightarrow> error + bool" where
  "valuePossibleAt b v idx =
     (let startOfRowIdx = idx sdiv 9 * 9 in
      case occursAt b v (map (\<lambda>i. startOfRowIdx + i) [0..8]) of
        Inl e \<Rightarrow> Inl e
      | Inr True \<Rightarrow> Inr False
      | Inr False \<Rightarrow>
         (let column = idx smod 9 in
          case occursAt b v (map (\<lambda>i. column + i * 9) [0..8]) of
            Inl e \<Rightarrow> Inl e
          | Inr True \<Rightarrow> Inr False
          | Inr False \<Rightarrow>
             (let row = idx sdiv 9;
                  topLeftIdx = row sdiv 3 * 3 * 9 + column sdiv 3 * 3 in
              case occursAt b v (map (\<lambda>offset. topLeftIdx + offset) blockOffsets) of
                Inl e \<Rightarrow> Inl e
              | Inr True \<Rightarrow> Inr False
              | Inr False \<Rightarrow> Inr True)))"

section \<open>The scan for the next empty cell\<close>

function findNextFieldNotSetAlready :: "Board \<Rightarrow> int \<Rightarrow> error + int" where
  "findNextFieldNotSetAlready b idx =
     (if idx < 81 then
        (case cellAt b idx of
           Inl e \<Rightarrow> Inl e
         | Inr c \<Rightarrow> if c \<noteq> 0 then findNextFieldNotSetAlready b (idx + 1) else Inr idx)
      else Inr idx)"
  by pat_completeness auto
termination
  by (relation "measure (\<lambda>(b, idx). nat (81 - idx))") auto

declare findNextFieldNotSetAlready.simps [simp del]

section \<open>The sequential backtracker\<close>

text \<open>
  \<open>solveInner\<close> mutates the board in place and returns a flag; the model returns the flag
  together with the board as it is on return.  \<open>tryValues b idx i\<close> is the candidate loop
  \<^verbatim>\<open>for i := 1; i < 10; i++\<close> from candidate \<open>i\<close> on, followed by the reset of the cell.
\<close>

function solveInner :: "Board \<Rightarrow> int \<Rightarrow> error + (bool \<times> Board)"
  and tryValues :: "Board \<Rightarrow> int \<Rightarrow> int \<Rightarrow> error + (bool \<times> Board)"
where
  "solveInner b idx =
     (case findNextFieldNotSetAlready b idx of
        Inl e \<Rightarrow> Inl e
      | Inr idx' \<Rightarrow> if idx' = 81 then Inr (True, b) else tryValues b idx' 1)"
| "tryValues b idx i =
     (if i < 10 then
        (case valuePossibleAt b i idx of
           Inl e \<Rightarrow> Inl e
         | Inr False \<Rightarrow> tryValues b idx (i + 1)
         | Inr True \<Rightarrow>
            (case setCell b idx i of
               Inl e \<Rightarrow> Inl e
             | Inr b1 \<Rightarrow>
                (case solveInner b1 (idx + 1) of
                   Inl e \<Rightarrow> Inl e
                 | Inr (True, b2) \<Rightarrow> Inr (True, b2)
                 | Inr (False, b2) \<Rightarrow> tryValues b2 idx (i + 1))))
      else
        (case setCell b idx 0 of
           Inl e \<Rightarrow> Inl e
         | Inr b1 \<Rightarrow> Inr (False, b1)))"
  by pat_completeness auto

text \<open>
  The board handed on after a failed recursive call is the one that call returns, so the
  recursion is nested; the length of the slice never changes, which is what the
  termination argument needs.
\<close>

lemma findNext_ge: "findNextFieldNotSetAlready b idx = Inr j \<Longrightarrow> idx \<le> j"
proof (induction b idx rule: findNextFieldNotSetAlready.induct)
  case (1 b idx)
  then show ?case
    by (subst (asm) (2) findNextFieldNotSetAlready.simps)
       (fastforce split: if_splits sum.splits)
qed

lemma solve_length_partial:
  "solveInner_tryValues_dom (Inl (b, idx)) \<Longrightarrow>
     (\<forall>ok b'. solveInner b idx = Inr (ok, b') \<longrightarrow> length b' = length b)"
  "solveInner_tryValues_dom (Inr (b, idx, i)) \<Longrightarrow>
     (\<forall>ok b'. tryValues b idx i = Inr (ok, b') \<longrightarrow> length b' = length b)"
proof (induction b idx and b idx i rule: solveInner_tryValues.pinduct)
  case (1 b idx)
  then show ?case
    by (auto simp: solveInner.psimps split: sum.splits if_splits)
next
  case (2 b idx i)
  then show ?case
    apply (simp (no_asm_use) add: tryValues.psimps[OF 2(1)] setCell_def
        split: sum.splits if_splits bool.splits prod.splits)
    apply auto
    done
qed

termination solveInner
proof (relation "inv_image (less_than <*lex*> less_than <*lex*> less_than)
     (\<lambda>x. case x of
        Inl (b, idx) \<Rightarrow> (nat (int (length b) - idx), 1::nat, 0::nat)
      | Inr (b, idx, i) \<Rightarrow> (nat (int (length b) - idx), 0, nat (10 - i)))", goal_cases)
  case 1
  then show ?case by (intro wf_inv_image wf_lex_prod wf_less_than)
next
  case (2 b idx idx')
  then show ?case using findNext_ge[of b idx idx'] by auto
next
  case (3 b idx i r b1)
  then show ?case by (auto simp: setCell_def inRange_def split: if_splits)
next
  case (4 b idx i r b1 res ok b2)
  then show ?case using solve_length_partial(1)[of b1 "idx + 1"]
    by (auto simp: setCell_def inRange_def split: if_splits)
next
  case (5 b idx i r)
  then show ?case by auto
qed

declare solveInner.simps [simp del] tryValues.simps [simp del]

section \<open>The speculative-parallel coordinator\<close>

text \<open>
  \<^verbatim>\<open>Solve\<close> of the parallel variant prints one of three messages; the model returns which
  one, with the board it prints.
\<close>

datatype outcome = AllValuesSet Board | FoundSolution Board | NoSolution

text \<open>
  \<^verbatim>\<open>copiedBoard := NewBoard(); copy(copiedBoard, b)\<close>: \<^verbatim>\<open>copy\<close> moves as many cells as the
  shorter of the two slices has.
\<close>

definition copyBoard :: "Board \<Rightarrow> Board" where
  "copyBoard b = take 81 b @ drop (length b) NewBoard"

text \<open>The body of one goroutine: fix the candidate in the copy, search from the next index.\<close>

definition branch :: "Board \<Rightarrow> int \<Rightarrow> int \<Rightarrow> error + (bool \<times> Board)" where
  "branch b idx i =
     (case setCell (copyBoard b) idx i of
        Inl e \<Rightarrow> Inl e
      | Inr copiedBoard \<Rightarrow> solveInner copiedBoard (idx + 1))"

text \<open>
  The loop that starts the goroutines, over the candidates still to come; the result
  lists what each started goroutine ends with.  A panic in any goroutine ends the
  process and is the result of the whole.
\<close>

fun launch :: "Board \<Rightarrow> int \<Rightarrow> int list \<Rightarrow> error + (bool \<times> Board) list" where
  "launch b idx [] = Inr []"
| "launch b idx (i # is) =
     (case valuePossibleAt b i idx of
        Inl e \<Rightarrow> Inl e
      | Inr False \<Rightarrow> launch b idx is
      | Inr True \<Rightarrow>
         (case branch b idx i of
            Inl e \<Rightarrow> Inl e
          | Inr r \<Rightarrow>
             (case launch b idx is of
                Inl e \<Rightarrow> Inl e
              | Inr rs \<Rightarrow> Inr (r # rs))))"

text \<open>
  The \<^verbatim>\<open>select\<close> receives a board from \<^verbatim>\<open>resultChan\<close> or sees \<^verbatim>\<open>doneChan\<close> closed.
  A goroutine that succeeds sends its board and never counts the wait group down, so
  \<^verbatim>\<open>doneChan\<close> closes exactly when every started goroutine failed (at once when none was
  started).  Which successful goroutine sends first is up to the scheduler: \<open>Solve\<close>
  returns the set of outcomes the run may end with.
\<close>

definition Solve :: "Board \<Rightarrow> error + outcome set" where
  "Solve b =
     (case findNextFieldNotSetAlready b 0 of
        Inl e \<Rightarrow> Inl e
      | Inr idx \<Rightarrow>
         if idx = 81 then Inr {AllValuesSet b}
         else
           (case launch b idx [1..9] of
              Inl e \<Rightarrow> Inl e
            | Inr rs \<Rightarrow>
               (let winners = map snd (filter fst rs) in
                if winners = [] then Inr {NoSolution}
                else Inr (FoundSolution ` set winners))))"

text \<open>\<^verbatim>\<open>Solve\<close> of the sequential variant: one call of \<open>solveInner\<close> on the board itself.\<close>

definition SolveSequential :: "Board \<Rightarrow> error + outcome" where
  "SolveSequential b =
     (case solveInner b 0 of
        Inl e \<Rightarrow> Inl e
      | Inr (True, b') \<Rightarrow> Inr (FoundSolution b')
      | Inr (False, b') \<Rightarrow> Inr NoSolution)"

section \<open>Rendering\<close>

text \<open>\<^verbatim>\<open>strconv.Itoa\<close>: the decimal digits of an integer, with a sign when negative.\<close>

fun digitsOf :: "nat \<Rightarrow> string" where
  "digitsOf n = (if n < 10 then [char_of (48 + n)] else digitsOf (n div 10) @ [char_of (48 + n mod 10)])"

declare digitsOf.simps [simp del]

definition Itoa :: "int \<Rightarrow> string" where
  "Itoa n = (if n < 0 then CHR ''-'' # digitsOf (nat (- n)) else digitsOf (nat n))"

text \<open>The loop of \<^verbatim>\<open>String\<close> from cell \<open>i\<close> on, with the builder's content \<open>sb\<close>.\<close>

function StringLoop :: "Board \<Rightarrow> int \<Rightarrow> string \<Rightarrow> error + string" where
  "StringLoop b i sb =
     (if i < 81 then
        (let sb1 = (if i smod 9 = 0 then sb @ [CHR 0x0A] else sb) in
         case cellAt b i of
           Inl e \<Rightarrow> Inl e
         | Inr c \<Rightarrow> StringLoop b (i + 1) (sb1 @ Itoa c @ [CHR '' '']))
      else Inr sb)"
  by pat_completeness auto
termination
  by (relation "measure (\<lambda>(b, i, sb). nat (81 - i))") auto

declare StringLoop.simps [simp del]

definition String :: "Board \<Rightarrow> error + string" where
  "String b = (case StringLoop b 0 [] of Inl e \<Rightarrow> Inl e | Inr sb \<Rightarrow> Inr (sb @ [CHR 0x0A]))"

section \<open>The example puzzle\<close>

definition exampleBoard :: "Board" where
  "exampleBoard =
    [5, 3, 0, 0, 7, 0, 0, 0, 0,
     6, 0, 0, 1, 9, 5, 0, 0, 0,
     0, 9, 8, 0, 0, 0, 0, 6, 0,
     8, 0, 0, 0, 6, 0, 0, 0, 3,
     4, 0, 0, 8, 0, 3, 0, 0, 1,
     7, 0, 0, 0, 2, 0, 0, 0, 6,
     0, 6, 0, 0, 0, 0, 2, 8, 0,
     0, 0, 0, 4, 1, 9, 0, 0, 5,
     0, 0, 0, 0, 8, 0, 0, 7, 9]"

text \<open>The board the comment beside the example gives as its solution.\<close>

definition solvedExample :: "Board" where
  "solvedExample =
    [5, 3, 4, 6, 7, 8, 9, 1, 2,
     6, 7, 2, 1, 9, 5, 3, 4, 8,
     1, 9, 8, 3, 4, 2, 5, 6, 7,
     8, 5, 9, 7, 6, 1, 4, 2, 3,
     4, 2, 6, 8, 5, 3, 7, 9, 1,
     7, 1, 3, 9, 2, 4, 8, 5, 6,
     9, 6, 1, 5, 3, 7, 2, 8, 4,
     2, 8, 7, 4, 1, 9, 6, 3, 5,
     3, 4, 5, 2, 8, 6, 1, 7, 9]"

section \<open>Vocabulary of the specification\<close>

text \<open>
  The three regions of a cell as the specification words them: the cells that share
  \<open>index / 9\<close>, the cells that share \<open>index % 9\<close>, and the nine offsets from the
  block's top-left index.
\<close>

definition rowCells :: "int \<Rightarrow> int list" where
  "rowCells i = filter (\<lambda>j. j div 9 = i div 9) [0..80]"

definition columnCells :: "int \<Rightarrow> int list" where
  "columnCells i = filter (\<lambda>j. j mod 9 = i mod 9) [0..80]"

definition blockCells :: "int \<Rightarrow> int list" where
  "blockCells i = map (\<lambda>offset. i div 9 div 3 * 27 + i mod 9 div 3 * 3 + offset) blockOffsets"

text \<open>The 27 units of the grid: nine rows, nine columns, nine blocks.\<close>

definition rows :: "int list list" where
  "rows = map (\<lambda>r. map (\<lambda>k. r * 9 + k) [0..8]) [0..8]"

definition columns :: "int list list" where
  "columns = map (\<lambda>c. map (\<lambda>k. c + k * 9) [0..8]) [0..8]"

definition blocks :: "int list list" where
  "blocks = concat (map (\<lambda>br. map (\<lambda>bc. map (\<lambda>offset. br * 27 + bc * 3 + offset) blockOffsets) [0..2]) [0..2])"

definition units :: "int list list" where
  "units = rows @ columns @ blocks"

definition valuesAt :: "Board \<Rightarrow> int list \<Rightarrow> int list" where
  "valuesAt b u = map (\<lambda>j. b ! nat j) u"

text \<open>A board as the data model has it: 81 cells, each \<open>0\<close> (empty) or a digit \<open>1..9\<close>.\<close>

definition wellFormed :: "Board \<Rightarrow> bool" where
  "wellFormed b = (length b = 81 \<and> (\<forall>x\<in>set b. 0 \<le> x \<and> x \<le> 9))"

text \<open>The nonzero cells violate no row, column or block uniqueness.\<close>

definition noDuplicates :: "Board \<Rightarrow> bool" where
  "noDuplicates b = (\<forall>u\<in>set units. distinct (filter (\<lambda>x. x \<noteq> 0) (valuesAt b u)))"

text \<open>Solved: no empty cell, and every unit holds each digit \<open>1..9\<close> exactly once.\<close>

definition solved :: "Board \<Rightarrow> bool" where
  "solved b = (length b = 81 \<and> 0 \<notin> set b \<and>
     (\<forall>u\<in>set units. \<forall>d\<in>{1..9}. count_list (valuesAt b u) d = 1))"

text \<open>\<open>s\<close> keeps every filled cell of \<open>b\<close>.\<close>

definition extends :: "Board \<Rightarrow> Board \<Rightarrow> bool" where
  "extends b s = (length s = length b \<and> (\<forall>n < length b. b ! n \<noteq> 0 \<longrightarrow> s ! n = b ! n))"

definition unsolvable :: "Board \<Rightarrow> bool" where
  "unsolvable b = (\<not> (\<exists>s. solved s \<and> extends b s))"

text \<open>
  Two cells see each other when they share a row, a column or a block; \<open>legal b v i\<close>
  says that no cell that \<open>i\<close> sees (nor \<open>i\<close> itself) holds \<open>v\<close>, and \<open>consistent\<close> is
  the pairwise form of \<open>noDuplicates\<close>.
\<close>

definition sameUnit :: "int \<Rightarrow> int \<Rightarrow> bool" where
  "sameUnit i j = (i div 9 = j div 9 \<or> i mod 9 = j mod 9 \<or>
     (i div 27 = j div 27 \<and> i mod 9 div 3 = j mod 9 div 3))"

definition legal :: "Board \<Rightarrow> int \<Rightarrow> int \<Rightarrow> bool" where
  "legal b v i = (\<forall>j\<in>{0..80}. sameUnit i j \<longrightarrow> b ! nat j \<noteq> v)"

definition consistent :: "Board \<Rightarrow> bool" where
  "consistent b = (\<forall>i\<in>{0..80}. \<forall>j\<in>{0..80}.
     i \<noteq> j \<and> sameUnit i j \<and> b ! nat i \<noteq> 0 \<longrightarrow> b ! nat i \<noteq> b ! nat j)"

section \<open>Boards used as instances\<close>

text \<open>
  A board on which the search from cell 0 tries two candidates, finds none for cell 1
  under either, and gives up.
\<close>

definition deadEndBoard :: "Board" where
  "deadEndBoard =
    [0, 0, 3, 4, 5, 6, 7, 8, 9,
     0, 0, 0, 0, 0, 0, 0, 0, 0,
     0, 0, 0, 0, 0, 0, 0, 0, 0,
     0, 1, 0, 0, 0, 0, 0, 0, 0,
     0, 2, 0, 0, 0, 0, 0, 0, 0,
     0, 0, 0, 0, 0, 0, 0, 0, 0,
     0, 0, 0, 0, 0, 0, 0, 0, 0,
     0, 0, 0, 0, 0, 0, 0, 0, 0,
     0, 0, 0, 0, 0, 0, 0, 0, 0]"

text \<open>The solved example with two cells emptied again.\<close>

definition twoBlanks :: "Board" where
  "twoBlanks = solvedExample[2 := 0, 80 := 0]"

section \<open>Forced cells\<close>

text \<open>
  A device for showing that a puzzle has one solution only: a cell is forced to \<open>v\<close> when
  every other digit already stands in a cell it shares a unit with.  \<open>fillForced\<close>
  fills a list of cells, each forced at its turn.
\<close>

definition seen :: "Board \<Rightarrow> int \<Rightarrow> int list" where
  "seen b i = map (\<lambda>j. b ! nat j) (filter (\<lambda>j. sameUnit i j \<and> j \<noteq> i) [0..80])"

definition forcedAt :: "Board \<Rightarrow> int \<Rightarrow> int \<Rightarrow> bool" where
  "forcedAt b i v = (0 \<le> i \<and> i \<le> 80 \<and> 1 \<le> v \<and> v \<le> 9 \<and>
     (\<forall>w\<in>{1..9}. w \<noteq> v \<longrightarrow> w \<in> set (seen b i)))"

fun fillForced :: "Board \<Rightarrow> (int \<times> int) list \<Rightarrow> Board option" where
  "fillForced b [] = Some b"
| "fillForced b ((i, v) # steps) =
     (if forcedAt b i v then fillForced (b[nat i := v]) steps else None)"

text \<open>An order in which the cells of the example are forced, with the digits.\<close>

definition exampleSteps :: "(int \<times> int) list" where
  "exampleSteps =
    [(40, 5), (48, 9), (58, 3), (59, 7), (62, 4), (70, 3), (22, 4), (23, 2), (26, 7),
     (30, 7), (37, 2), (43, 9), (57, 5), (63, 2), (65, 7), (69, 6), (77, 6), (78, 1),
     (3, 6), (5, 8), (8, 2), (16, 4), (17, 8), (18, 1), (21, 3), (24, 5), (33, 4),
     (38, 6), (42, 7), (51, 8), (52, 5), (54, 9), (56, 1), (64, 8), (72, 3), (75, 2),
     (2, 4), (6, 9), (7, 1), (10, 7), (11, 2), (15, 3), (32, 1), (34, 2), (46, 1),
     (47, 3), (50, 4), (74, 5), (28, 5), (29, 9), (73, 4)]"

section \<open>Further boards used as instances\<close>

text \<open>A filled board that violates every uniqueness there is.\<close>

definition allOnes :: "Board" where
  "allOnes = replicate 81 1"

text \<open>The solved example with a second 3 in its first row and its last cell emptied.\<close>

definition dupBoard :: "Board" where
  "dupBoard = solvedExample[0 := 3, 80 := 0]"

section \<open>Reads, writes and index arithmetic on an 81-cell board\<close>

lemma cellAt_81:
  "length b = 81 \<Longrightarrow> cellAt b i = (if 0 \<le> i \<and> i \<le> 80 then Inr (b ! nat i) else Inl IndexOutOfRange)"
  by (auto simp: cellAt_def inRange_def)

lemma setCell_81:
  "length b = 81 \<Longrightarrow> setCell b i v = (if 0 \<le> i \<and> i \<le> 80 then Inr (b[nat i := v]) else Inl IndexOutOfRange)"
  by (auto simp: setCell_def inRange_def)

lemma sdiv_nonneg: "0 \<le> (a::int) \<Longrightarrow> 0 \<le> b \<Longrightarrow> a sdiv b = a div b"
  by (auto simp: signed_divide_int_def sgn_if)

lemma smod_nonneg: "0 \<le> (a::int) \<Longrightarrow> 0 \<le> b \<Longrightarrow> a smod b = a mod b"
  by (auto simp: signed_modulo_int_def sgn_if)

lemma row_aux: "(\<exists>k\<in>{0..8}. j = r * 9 + k) = (j div 9 = (r::int))"
proof
  assume "\<exists>k\<in>{0..8}. j = r * 9 + k"
  then obtain k where "0 \<le> k" "k \<le> 8" "j = r * 9 + k" by auto
  then show "j div 9 = r" by simp
next
  assume "j div 9 = r"
  then have "j = r * 9 + j mod 9" "0 \<le> j mod 9" "j mod 9 \<le> 8" by auto
  then show "\<exists>k\<in>{0..8}. j = r * 9 + k" by (intro bexI[of _ "j mod 9"]) auto
qed

lemma col_aux:
  assumes "0 \<le> c" "c \<le> 8"
  shows "(\<exists>k\<in>{0..8}. j = c + k * 9) = (0 \<le> j \<and> j \<le> 80 \<and> j mod 9 = (c::int))"
proof
  assume "\<exists>k\<in>{0..8}. j = c + k * 9"
  then obtain k where "0 \<le> k" "k \<le> 8" "j = c + k * 9" by auto
  with assms show "0 \<le> j \<and> j \<le> 80 \<and> j mod 9 = c" by simp
next
  assume j: "0 \<le> j \<and> j \<le> 80 \<and> j mod 9 = c"
  then have "j = c + (j div 9) * 9" "0 \<le> j div 9" "j div 9 \<le> 8" by auto
  then show "\<exists>k\<in>{0..8}. j = c + k * 9" by (intro bexI[of _ "j div 9"]) auto
qed

lemma block_decomp:
  "(j::int) = 27 * (j div 27) + 9 * (j mod 27 div 9) + 3 * (j mod 9 div 3) + j mod 3"
proof -
  have 1: "j = 27 * (j div 27) + j mod 27" by simp
  have 2: "j mod 27 = 9 * (j mod 27 div 9) + j mod 27 mod 9" by simp
  have 3: "j mod 27 mod 9 = j mod 9" by (simp add: mod_mod_cancel)
  have 4: "j mod 9 = 3 * (j mod 9 div 3) + j mod 9 mod 3" by simp
  have 5: "j mod 9 mod 3 = j mod 3" by (simp add: mod_mod_cancel)
  from 1 2 3 4 5 show ?thesis by linarith
qed

lemma block_compose:
  assumes "0 \<le> C" "C \<le> 2" "0 \<le> a" "a \<le> 2" "0 \<le> d" "d \<le> 2"
    and j: "(j::int) = R * 27 + C * 3 + (9 * a + d)"
  shows "j div 27 = R \<and> j mod 9 div 3 = C"
proof -
  have "j = (C * 3 + 9 * a + d) + R * 27" using j by simp
  then have "j div 27 = (C * 3 + 9 * a + d) div 27 + R" by (simp only: div_mult_self1)
  moreover have "(C * 3 + 9 * a + d) div 27 = 0" using assms by (intro div_pos_pos_trivial) auto
  ultimately have A: "j div 27 = R" by simp
  have "j = (C * 3 + d) + (R * 3 + a) * 9" using j by (simp add: algebra_simps)
  then have "j mod 9 = (C * 3 + d) mod 9" by (simp only: mod_mult_self1)
  moreover have "(C * 3 + d) mod 9 = C * 3 + d" using assms by (intro mod_pos_pos_trivial) auto
  ultimately have "j mod 9 = d + C * 3" by simp
  then have "j mod 9 div 3 = d div 3 + C" by (simp only: div_mult_self1)
  moreover have "d div 3 = 0" using assms by (intro div_pos_pos_trivial) auto
  ultimately show ?thesis using A by simp
qed

lemma offset_decomp:
  "offset \<in> set blockOffsets \<Longrightarrow> \<exists>a d. 0 \<le> a \<and> a \<le> 2 \<and> 0 \<le> d \<and> d \<le> 2 \<and> offset = 9 * a + d"
  unfolding blockOffsets_def
proof (simp, elim disjE, goal_cases)
  case 1 then show ?case by (intro exI[of _ 0] exI[of _ 0]) simp
next
  case 2 then show ?case by (intro exI[of _ 0] exI[of _ 1]) simp
next
  case 3 then show ?case by (intro exI[of _ 0] exI[of _ 2]) simp
next
  case 4 then show ?case by (intro exI[of _ 1] exI[of _ 0]) simp
next
  case 5 then show ?case by (intro exI[of _ 1] exI[of _ 1]) simp
next
  case 6 then show ?case by (intro exI[of _ 1] exI[of _ 2]) simp
next
  case 7 then show ?case by (intro exI[of _ 2] exI[of _ 0]) simp
next
  case 8 then show ?case by (intro exI[of _ 2] exI[of _ 1]) simp
next
  case 9 then show ?case by (intro exI[of _ 2] exI[of _ 2]) simp
qed

lemma offset_compose:
  assumes "0 \<le> a" "a \<le> 2" "0 \<le> d" "d \<le> 2"
  shows "9 * a + d \<in> set blockOffsets"
proof -
  from assms have "a = 0 \<or> a = 1 \<or> a = 2" "d = 0 \<or> d = 1 \<or> d = (2::int)" by auto
  then show ?thesis unfolding blockOffsets_def by auto
qed

lemma block_aux:
  assumes "0 \<le> C" "C \<le> 2"
  shows "(\<exists>offset\<in>set blockOffsets. j = R * 27 + C * 3 + offset)
           = (j div 27 = R \<and> j mod 9 div 3 = (C::int))"
proof
  assume "\<exists>offset\<in>set blockOffsets. j = R * 27 + C * 3 + offset"
  then obtain offset where o: "offset \<in> set blockOffsets" "j = R * 27 + C * 3 + offset" by blast
  from offset_decomp[OF o(1)]
  obtain a d where "0 \<le> a" "a \<le> 2" "0 \<le> d" "d \<le> 2" "offset = 9 * a + d" by blast
  with assms o(2) show "j div 27 = R \<and> j mod 9 div 3 = C"
    by (intro block_compose[of C a d j R]) auto
next
  assume h: "j div 27 = R \<and> j mod 9 div 3 = C"
  define a where "a = j mod 27 div 9"
  define d where "d = j mod 3"
  have "0 \<le> j mod 27" "j mod 27 \<le> 26" by simp_all
  then have "j mod 27 div 9 \<le> 26 div 9" by (intro zdiv_mono1) auto
  then have ad: "0 \<le> a" "a \<le> 2" unfolding a_def by simp_all
  have d: "0 \<le> d" "d \<le> 2" unfolding d_def by simp_all
  have "j = R * 27 + C * 3 + (9 * a + d)"
    using block_decomp[of j] h unfolding a_def d_def by simp
  with offset_compose[OF ad d] show "\<exists>offset\<in>set blockOffsets. j = R * 27 + C * 3 + offset"
    by blast
qed

lemma index_bounds:
  assumes "0 \<le> (i::int)" "i \<le> 80"
  shows "0 \<le> i div 9" "i div 9 \<le> 8" "0 \<le> i mod 9" "i mod 9 \<le> 8"
    "0 \<le> i div 27" "i div 27 \<le> 2" "0 \<le> i mod 9 div 3" "i mod 9 div 3 \<le> 2"
    "i div 9 div 3 = i div 27"
proof -
  show "0 \<le> i div 9" "0 \<le> i mod 9" "i mod 9 \<le> 8" "0 \<le> i div 27" "0 \<le> i mod 9 div 3"
    using assms by simp_all
  have "i div 9 \<le> 80 div 9" using assms by (intro zdiv_mono1) auto
  then show "i div 9 \<le> 8" by simp
  have "i div 27 \<le> 80 div 27" using assms by (intro zdiv_mono1) auto
  then show "i div 27 \<le> 2" by simp
  have "i mod 9 div 3 \<le> 8 div 3" by (intro zdiv_mono1) auto
  then show "i mod 9 div 3 \<le> 2" by simp
  show "i div 9 div 3 = i div 27" by (simp add: zdiv_zmult2_eq[symmetric])
qed

text \<open>The indices the three loops visit are the cells that share a unit with \<open>idx\<close>.\<close>

lemma in_set_map_iff: "(j \<in> set (map f xs)) = (\<exists>x\<in>set xs. j = f x)"
  by auto

lemma row_indices:
  "(j \<in> set (map (\<lambda>i. idx div 9 * 9 + i) [0..8])) = (j div 9 = idx div 9)"
  unfolding in_set_map_iff set_upto by (rule row_aux)

lemma column_indices:
  assumes "0 \<le> idx" "idx \<le> 80"
  shows "(j \<in> set (map (\<lambda>i. idx mod 9 + i * 9) [0..8])) = (0 \<le> j \<and> j \<le> 80 \<and> j mod 9 = idx mod 9)"
  unfolding in_set_map_iff set_upto using index_bounds(3,4)[OF assms] by (rule col_aux)

lemma block_indices:
  assumes "0 \<le> idx" "idx \<le> 80"
  shows "(j \<in> set (map (\<lambda>offset. idx div 9 div 3 * 3 * 9 + idx mod 9 div 3 * 3 + offset) blockOffsets))
     = (j div 27 = idx div 27 \<and> j mod 9 div 3 = idx mod 9 div 3)"
proof -
  have eq: "idx div 9 div 3 * 3 * 9 = idx div 27 * 27"
    using index_bounds(9)[OF assms] by simp
  show ?thesis
    unfolding in_set_map_iff eq by (rule block_aux[OF index_bounds(7,8)[OF assms]])
qed

lemma row_in_board: "0 \<le> idx \<Longrightarrow> idx \<le> 80 \<Longrightarrow> j div 9 = idx div 9 \<Longrightarrow> 0 \<le> j \<and> j \<le> (80::int)"
  by presburger

lemma block_in_board:
  "0 \<le> idx \<Longrightarrow> idx \<le> 80 \<Longrightarrow> j div 27 = idx div 27 \<Longrightarrow> 0 \<le> j \<and> j \<le> (80::int)"
  by presburger

section \<open>The legality check on an 81-cell board\<close>

lemma occursAt_81:
  "length b = 81 \<Longrightarrow> \<forall>j\<in>set js. 0 \<le> j \<and> j \<le> 80 \<Longrightarrow>
     occursAt b v js = Inr (\<exists>j\<in>set js. b ! nat j = v)"
  by (induction js) (auto simp: cellAt_81)

lemma three_scans:
  "(case Inr P of Inl e \<Rightarrow> Inl e | Inr True \<Rightarrow> Inr False
    | Inr False \<Rightarrow>
       (case Inr Q of Inl e \<Rightarrow> Inl e | Inr True \<Rightarrow> Inr False
        | Inr False \<Rightarrow>
           (case Inr R of Inl e \<Rightarrow> Inl e | Inr True \<Rightarrow> Inr False
            | Inr False \<Rightarrow> Inr True)))
   = (Inr (\<not> (P \<or> Q \<or> R)) :: error + bool)"
  by (cases P; cases Q; cases R) simp_all

lemma valuePossibleAt_loops:
  assumes len: "length b = 81" and idx: "0 \<le> idx" "idx \<le> 80"
  shows "valuePossibleAt b v idx = Inr (\<not> (
            (\<exists>j \<in> set (map (\<lambda>i. idx div 9 * 9 + i) [0..8]). b ! nat j = v) \<or>
            (\<exists>j \<in> set (map (\<lambda>i. idx mod 9 + i * 9) [0..8]). b ! nat j = v) \<or>
            (\<exists>j \<in> set (map (\<lambda>offset. idx div 9 div 3 * 3 * 9 + idx mod 9 div 3 * 3 + offset) blockOffsets).
                b ! nat j = v)))"
proof -
  let ?R = "map (\<lambda>i. idx div 9 * 9 + i) [0..8]"
  let ?C = "map (\<lambda>i. idx mod 9 + i * 9) [0..8]"
  let ?B = "map (\<lambda>offset. idx div 9 div 3 * 3 * 9 + idx mod 9 div 3 * 3 + offset) blockOffsets"
  have inR: "\<forall>j\<in>set ?R. 0 \<le> j \<and> j \<le> 80"
    using row_indices[of _ idx] row_in_board[OF idx] by blast
  have inC: "\<forall>j\<in>set ?C. 0 \<le> j \<and> j \<le> 80"
    using column_indices[OF idx] by blast
  have inB: "\<forall>j\<in>set ?B. 0 \<le> j \<and> j \<le> 80"
    using block_indices[OF idx] block_in_board[OF idx] by blast
  have div: "idx sdiv 9 = idx div 9" "idx smod 9 = idx mod 9"
    "idx div 9 sdiv 3 = idx div 9 div 3" "idx mod 9 sdiv 3 = idx mod 9 div 3"
    using idx by (simp_all add: sdiv_nonneg smod_nonneg)
  show ?thesis
    unfolding valuePossibleAt_def Let_def div
      occursAt_81[OF len inR] occursAt_81[OF len inC] occursAt_81[OF len inB]
    by (rule three_scans)
qed

lemma legal_loops:
  assumes idx: "0 \<le> idx" "idx \<le> 80"
  shows "legal b v idx = (\<not> (
            (\<exists>j \<in> set (map (\<lambda>i. idx div 9 * 9 + i) [0..8]). b ! nat j = v) \<or>
            (\<exists>j \<in> set (map (\<lambda>i. idx mod 9 + i * 9) [0..8]). b ! nat j = v) \<or>
            (\<exists>j \<in> set (map (\<lambda>offset. idx div 9 div 3 * 3 * 9 + idx mod 9 div 3 * 3 + offset) blockOffsets).
                b ! nat j = v)))"
proof -
  have r: "(\<exists>j \<in> set (map (\<lambda>i. idx div 9 * 9 + i) [0..8]). b ! nat j = v)
        = (\<exists>j\<in>{0..80}. idx div 9 = j div 9 \<and> b ! nat j = v)"
    unfolding Bex_def row_indices using row_in_board[OF idx] by (metis atLeastAtMost_iff)
  have c: "(\<exists>j \<in> set (map (\<lambda>i. idx mod 9 + i * 9) [0..8]). b ! nat j = v)
        = (\<exists>j\<in>{0..80}. idx mod 9 = j mod 9 \<and> b ! nat j = v)"
    unfolding Bex_def column_indices[OF idx] by (metis atLeastAtMost_iff)
  have bl: "(\<exists>j \<in> set (map (\<lambda>offset. idx div 9 div 3 * 3 * 9 + idx mod 9 div 3 * 3 + offset) blockOffsets). b ! nat j = v)
        = (\<exists>j\<in>{0..80}. (idx div 27 = j div 27 \<and> idx mod 9 div 3 = j mod 9 div 3) \<and> b ! nat j = v)"
    unfolding Bex_def block_indices[OF idx] using block_in_board[OF idx] by (metis atLeastAtMost_iff)
  show ?thesis unfolding r c bl legal_def sameUnit_def by blast
qed

lemma valuePossibleAt_legal:
  assumes len: "length b = 81" and idx: "0 \<le> idx" "idx \<le> 80"
  shows "valuePossibleAt b v idx = Inr (legal b v idx)"
  unfolding legal_loops[OF idx] by (rule valuePossibleAt_loops[OF assms])

lemma set_rowCells:
  assumes "0 \<le> i" "i \<le> 80"
  shows "set (rowCells i) = set (map (\<lambda>k. i div 9 * 9 + k) [0..8])"
proof (rule set_eqI)
  fix j
  have "(j \<in> set (rowCells i)) = ((0 \<le> j \<and> j \<le> 80) \<and> j div 9 = i div 9)"
    unfolding rowCells_def set_filter set_upto mem_Collect_eq atLeastAtMost_iff ..
  also have "\<dots> = (j div 9 = i div 9)"
    using row_in_board[OF assms, of j] by blast
  finally show "(j \<in> set (rowCells i)) = (j \<in> set (map (\<lambda>k. i div 9 * 9 + k) [0..8]))"
    unfolding row_indices .
qed

lemma set_columnCells:
  assumes "0 \<le> i" "i \<le> 80"
  shows "set (columnCells i) = set (map (\<lambda>k. i mod 9 + k * 9) [0..8])"
proof (rule set_eqI)
  fix j
  have "(j \<in> set (columnCells i)) = ((0 \<le> j \<and> j \<le> 80) \<and> j mod 9 = i mod 9)"
    unfolding columnCells_def set_filter set_upto mem_Collect_eq atLeastAtMost_iff ..
  then show "(j \<in> set (columnCells i)) = (j \<in> set (map (\<lambda>k. i mod 9 + k * 9) [0..8]))"
    unfolding column_indices[OF assms] by blast
qed

lemma blockCells_eq:
  "blockCells i = map (\<lambda>offset. i div 9 div 3 * 3 * 9 + i mod 9 div 3 * 3 + offset) blockOffsets"
  unfolding blockCells_def by simp

text \<open>
  C1.  On an 81-cell board and for a cell index \<open>i\<close> in \<open>0..80\<close>, \<open>valuePossibleAt\<close>
  returns false exactly when \<open>v\<close> already stands in the row of \<open>i\<close> (the cells with the
  same \<open>index / 9\<close>), in its column (the cells with the same \<open>index % 9\<close>) or in its
  block (the nine offsets from the block's top-left index), and true otherwise.  This
  holds for every \<open>v\<close> and whatever the cell \<open>i\<close> itself holds, so in particular for an
  empty cell and a digit \<open>1..9\<close>.
\<close>

theorem valuePossibleAt_regions:
  assumes "length b = 81" "0 \<le> i" "i \<le> 80"
  shows "valuePossibleAt b v i =
     Inr (\<not> ((\<exists>j\<in>set (rowCells i). b ! nat j = v) \<or>
              (\<exists>j\<in>set (columnCells i). b ! nat j = v) \<or>
              (\<exists>j\<in>set (blockCells i). b ! nat j = v)))"
  unfolding set_rowCells[OF assms(2,3)] set_columnCells[OF assms(2,3)] blockCells_eq
  by (rule valuePossibleAt_loops[OF assms])

section \<open>The scan for the next empty cell\<close>

lemma findNext_81:
  "length b = 81 \<Longrightarrow> 0 \<le> i \<Longrightarrow> i \<le> 81 \<Longrightarrow>
   \<exists>j. findNextFieldNotSetAlready b i = Inr j \<and> i \<le> j \<and> j \<le> 81 \<and>
       (\<forall>k. i \<le> k \<and> k < j \<longrightarrow> b ! nat k \<noteq> 0) \<and> (j \<noteq> 81 \<longrightarrow> b ! nat j = 0)"
proof (induction b i rule: findNextFieldNotSetAlready.induct)
  case (1 b idx)
  show ?case
  proof (cases "idx < 81")
    case False
    with 1 show ?thesis by (simp add: findNextFieldNotSetAlready.simps)
  next
    case True
    show ?thesis
    proof (cases "b ! nat idx = 0")
      case z: True
      with True 1 show ?thesis
        by (subst findNextFieldNotSetAlready.simps) (simp add: cellAt_81)
    next
      case nz: False
      have c: "cellAt b idx = Inr (b ! nat idx)" using 1 True by (simp add: cellAt_81)
      from 1(1)[OF True c nz] 1(2-) True
      obtain j where j: "findNextFieldNotSetAlready b (idx + 1) = Inr j" "idx + 1 \<le> j" "j \<le> 81"
        "\<forall>k. idx + 1 \<le> k \<and> k < j \<longrightarrow> b ! nat k \<noteq> 0" "j \<noteq> 81 \<longrightarrow> b ! nat j = 0"
        by auto
      have "\<forall>k. idx \<le> k \<and> k < j \<longrightarrow> b ! nat k \<noteq> 0"
      proof (intro allI impI)
        fix k assume "idx \<le> k \<and> k < j"
        then show "b ! nat k \<noteq> 0" using j(4) nz by (cases "k = idx") auto
      qed
      with j True nz c show ?thesis
        by (subst findNextFieldNotSetAlready.simps) auto
    qed
  qed
qed

lemma filled_nth: "0 \<notin> set b \<Longrightarrow> n < length b \<Longrightarrow> b ! n \<noteq> 0"
  by (metis nth_mem)

text \<open>
  C7.  On an 81-cell board and from a start index \<open>i\<close> in \<open>0..81\<close>, the scan returns an
  index \<open>j\<close> with \<open>i \<le> j \<le> 81\<close> such that no cell from \<open>i\<close> up to \<open>j\<close> (excluded) is
  empty and, unless \<open>j\<close> is the sentinel 81, cell \<open>j\<close> is empty: the smallest empty index
  at or after \<open>i\<close>, or 81 when there is none.  On a board without an empty cell the
  result is 81 from every start index.
\<close>

theorem findNextFieldNotSetAlready_first_empty:
  assumes "length b = 81" "0 \<le> i" "i \<le> 81"
  shows "\<exists>j. findNextFieldNotSetAlready b i = Inr j \<and> i \<le> j \<and> j \<le> 81 \<and>
       (\<forall>k. i \<le> k \<and> k < j \<longrightarrow> b ! nat k \<noteq> 0) \<and>
       (j \<noteq> 81 \<longrightarrow> b ! nat j = 0) \<and>
       (0 \<notin> set b \<longrightarrow> j = 81)"
proof -
  from findNext_81[OF assms] obtain j where
    j: "findNextFieldNotSetAlready b i = Inr j" "i \<le> j" "j \<le> 81"
       "\<forall>k. i \<le> k \<and> k < j \<longrightarrow> b ! nat k \<noteq> 0" "j \<noteq> 81 \<longrightarrow> b ! nat j = 0"
    by blast
  have "j = 81" if "0 \<notin> set b"
  proof (rule ccontr)
    assume "j \<noteq> 81"
    with j assms have "b ! nat j = 0" "nat j < length b" by auto
    with that filled_nth show False by blast
  qed
  with j show ?thesis by blast
qed

theorem valuePossibleAt_regions_witness:
  "length exampleBoard = 81 \<and> exampleBoard ! 2 = 0 \<and>
   valuePossibleAt exampleBoard 4 2 = Inr True \<and>
   valuePossibleAt exampleBoard 5 2 = Inr False \<and>
   valuePossibleAt exampleBoard 8 2 = Inr False \<and>
   valuePossibleAt exampleBoard 6 2 = Inr False"
proof -
  have len: "length exampleBoard = 81" by (simp add: exampleBoard_def)
  have r: "rowCells 2 = [0, 1, 2, 3, 4, 5, 6, 7, 8]"
    and c: "columnCells 2 = [2, 11, 20, 29, 38, 47, 56, 65, 74]"
    and bl: "blockCells 2 = [0, 1, 2, 9, 10, 11, 18, 19, 20]"
    by code_simp+
  have e: "exampleBoard ! 2 = 0" by (simp add: exampleBoard_def)
  show ?thesis
    using valuePossibleAt_regions[OF len, of 2, unfolded r c bl]
    by (simp add: exampleBoard_def)
qed

theorem findNextFieldNotSetAlready_first_empty_witness:
  "findNextFieldNotSetAlready exampleBoard 0 = Inr 2 \<and>
   findNextFieldNotSetAlready exampleBoard 3 = Inr 3 \<and>
   findNextFieldNotSetAlready solvedExample 40 = Inr 81"
proof -
  have len: "length exampleBoard = 81" "length solvedExample = 81"
    by (simp_all add: exampleBoard_def solvedExample_def)
  have full: "0 \<notin> set solvedExample" by (simp add: solvedExample_def)
  have c: "exampleBoard ! nat 0 \<noteq> 0" "exampleBoard ! nat 1 \<noteq> 0" "exampleBoard ! nat 2 = 0"
    "exampleBoard ! nat 3 = 0"
    by (simp_all add: exampleBoard_def)
  from findNextFieldNotSetAlready_first_empty[OF len(1), of 0]
  obtain j where j: "findNextFieldNotSetAlready exampleBoard 0 = Inr j" "0 \<le> j"
    "\<forall>k. 0 \<le> k \<and> k < j \<longrightarrow> exampleBoard ! nat k \<noteq> 0" "j \<noteq> 81 \<longrightarrow> exampleBoard ! nat j = 0"
    by auto
  have "\<not> 2 < j" using j(3)[rule_format, of 2] c(3) by auto
  moreover have "j \<noteq> 0" "j \<noteq> 1" using j(4) c(1,2) by auto
  ultimately have "j = 2" using j(2) by linarith
  with j have A: "findNextFieldNotSetAlready exampleBoard 0 = Inr 2" by simp
  from findNextFieldNotSetAlready_first_empty[OF len(1), of 3]
  obtain j' where j': "findNextFieldNotSetAlready exampleBoard 3 = Inr j'" "3 \<le> j'"
    "\<forall>k. 3 \<le> k \<and> k < j' \<longrightarrow> exampleBoard ! nat k \<noteq> 0"
    by auto
  have "\<not> 3 < j'" using j'(3)[rule_format, of 3] c(4) by auto
  with j' have B: "findNextFieldNotSetAlready exampleBoard 3 = Inr 3" by simp
  from findNextFieldNotSetAlready_first_empty[OF len(2), of 40] full
  have C: "findNextFieldNotSetAlready solvedExample 40 = Inr 81" by auto
  from A B C show ?thesis by simp
qed

section \<open>The backtracker on an 81-cell board\<close>

lemma solve_length_all:
  "\<forall>ok b'. solveInner b idx = Inr (ok, b') \<longrightarrow> length b' = length b"
  "\<forall>ok b'. tryValues b idx i = Inr (ok, b') \<longrightarrow> length b' = length b"
proof (induction b idx and b idx i rule: solveInner_tryValues.induct)
  case (1 b idx)
  then show ?case
    by (auto simp: solveInner.simps[of b idx] split: sum.splits if_splits)
next
  case (2 b idx i)
  then show ?case
    apply (simp (no_asm_use) add: tryValues.simps[of b idx i] setCell_def
        split: sum.splits if_splits bool.splits prod.splits)
    apply auto
    done
qed

lemma solve_length:
  "solveInner b idx = Inr (ok, b') \<Longrightarrow> length b' = length b"
  "tryValues b idx i = Inr (ok, b') \<Longrightarrow> length b' = length b"
  using solve_length_all(1)[of b idx] solve_length_all(2)[of b idx i] by simp_all

lemma tryValues_81:
  assumes "length b = 81" "0 \<le> idx" "idx \<le> 80"
  shows "tryValues b idx i =
     (if i < 10 then
        (if legal b i idx then
           (case solveInner (b[nat idx := i]) (idx + 1) of
              Inl e \<Rightarrow> Inl e
            | Inr (True, b2) \<Rightarrow> Inr (True, b2)
            | Inr (False, b2) \<Rightarrow> tryValues b2 idx (i + 1))
         else tryValues b idx (i + 1))
      else Inr (False, b[nat idx := 0]))"
  by (subst tryValues.simps)
     (simp add: valuePossibleAt_legal[OF assms] setCell_81[OF assms(1)] assms(2,3))

text \<open>
  An induction rule that follows the two functions on 81-cell boards and in-range
  indices, with the facts the scan and the legality check supply.
\<close>

lemma solve_induct_81_raw:
  assumes scan: "\<And>b idx.
      length b = 81 \<Longrightarrow> 0 \<le> idx \<Longrightarrow> idx \<le> 81 \<Longrightarrow>
      (\<And>j. findNextFieldNotSetAlready b idx = Inr j \<Longrightarrow> idx \<le> j \<Longrightarrow> j \<le> 80 \<Longrightarrow>
            b ! nat j = 0 \<Longrightarrow> Q b j 1) \<Longrightarrow> P b idx"
    and candidates: "\<And>b idx i.
      length b = 81 \<Longrightarrow> 0 \<le> idx \<Longrightarrow> idx \<le> 80 \<Longrightarrow>
      (i < 10 \<Longrightarrow> legal b i idx \<Longrightarrow> P (b[nat idx := i]) (idx + 1)) \<Longrightarrow>
      (\<And>b2. i < 10 \<Longrightarrow> legal b i idx \<Longrightarrow>
             solveInner (b[nat idx := i]) (idx + 1) = Inr (False, b2) \<Longrightarrow> Q b2 idx (i + 1)) \<Longrightarrow>
      (i < 10 \<Longrightarrow> \<not> legal b i idx \<Longrightarrow> Q b idx (i + 1)) \<Longrightarrow> Q b idx i"
  shows "length b = 81 \<Longrightarrow> 0 \<le> idx \<Longrightarrow> idx \<le> 81 \<Longrightarrow> P b idx"
    and "length b = 81 \<Longrightarrow> 0 \<le> idx \<Longrightarrow> idx \<le> 80 \<Longrightarrow> Q b idx i"
proof (induction b idx and b idx i rule: solveInner_tryValues.induct)
  case (1 b idx)
  show ?case
  proof (rule scan[OF 1(2,3,4)])
    fix j assume j: "findNextFieldNotSetAlready b idx = Inr j" "idx \<le> j" "j \<le> 80" "b ! nat j = 0"
    have "j \<noteq> 81" "0 \<le> j" using j(2,3) 1(3) by simp_all
    then show "Q b j 1" using 1(1)[OF j(1) _ 1(2) _ j(3)] by blast
  qed
next
  case (2 b idx i)
  note len = 2(4) and idx = 2(5,6)
  have v: "valuePossibleAt b i idx = Inr (legal b i idx)"
    by (rule valuePossibleAt_legal[OF len idx])
  have s: "setCell b idx i = Inr (b[nat idx := i])"
    using idx by (simp add: setCell_81[OF len])
  have len': "length (b[nat idx := i]) = 81" using len by simp
  have idx': "0 \<le> idx + 1" "idx + 1 \<le> 81" using idx by simp_all
  show ?case
  proof (rule candidates[OF len idx])
    assume a: "i < 10" "legal b i idx"
    have v': "valuePossibleAt b i idx = Inr True" using v a(2) by simp
    show "P (b[nat idx := i]) (idx + 1)" by (rule 2(1)[OF a(1) v' refl s len' idx'])
  next
    fix b2
    assume a: "i < 10" "legal b i idx" "solveInner (b[nat idx := i]) (idx + 1) = Inr (False, b2)"
    have v': "valuePossibleAt b i idx = Inr True" using v a(2) by simp
    have l2: "length b2 = 81" using solve_length(1)[OF a(3)] len by simp
    show "Q b2 idx (i + 1)" by (rule 2(2)[OF a(1) v' refl s a(3) refl refl l2 idx])
  next
    assume a: "i < 10" "\<not> legal b i idx"
    have v': "valuePossibleAt b i idx = Inr False" using v a(2) by simp
    show "Q b idx (i + 1)" by (rule 2(3)[OF a(1) v' refl len idx])
  qed
qed

lemmas solve_induct_81 [consumes 3, case_names scan candidates] =
  solve_induct_81_raw(1)[rotated 2] solve_induct_81_raw(2)[rotated 2]

lemma solveInner_81:
  assumes "length b = 81" "0 \<le> idx" "idx \<le> 81"
  obtains (filled) "findNextFieldNotSetAlready b idx = Inr 81" "solveInner b idx = Inr (True, b)"
      "\<forall>k. idx \<le> k \<and> k < 81 \<longrightarrow> b ! nat k \<noteq> 0"
  | (empty) j where "findNextFieldNotSetAlready b idx = Inr j" "idx \<le> j" "j \<le> 80"
      "b ! nat j = 0" "solveInner b idx = tryValues b j 1"
      "\<forall>k. idx \<le> k \<and> k < j \<longrightarrow> b ! nat k \<noteq> 0"
proof -
  from findNext_81[OF assms] obtain j where
    j: "findNextFieldNotSetAlready b idx = Inr j" "idx \<le> j" "j \<le> 81"
       "\<forall>k. idx \<le> k \<and> k < j \<longrightarrow> b ! nat k \<noteq> 0" "j \<noteq> 81 \<longrightarrow> b ! nat j = 0"
    by blast
  show thesis
  proof (cases "j = 81")
    case True
    with j show thesis by (intro filled) (simp_all add: solveInner.simps)
  next
    case False
    with j have "j \<le> 80" "b ! nat j = 0" "solveInner b idx = tryValues b j 1"
      by (simp_all add: solveInner.simps)
    with j show thesis by (intro empty[of j]) simp_all
  qed
qed

text \<open>On an 81-cell board and from an index in range the backtracker never panics.\<close>

lemma solve_total:
  "length b = 81 \<Longrightarrow> 0 \<le> idx \<Longrightarrow> idx \<le> 81 \<Longrightarrow> \<exists>ok b'. solveInner b idx = Inr (ok, b')"
  "length b = 81 \<Longrightarrow> 0 \<le> idx \<Longrightarrow> idx \<le> 80 \<Longrightarrow> \<exists>ok b'. tryValues b idx i = Inr (ok, b')"
proof (induction b idx and b idx i rule: solve_induct_81)
  case (scan b idx)
  from scan(1,2,3) show ?case
  proof (cases rule: solveInner_81)
    case filled
    then show ?thesis by blast
  next
    case (empty j)
    with scan(4)[of j] show ?thesis by simp
  qed
next
  case (candidates b idx i)
  note eq = tryValues_81[OF candidates(1,2,3), of i]
  show ?case
  proof (cases "i < 10")
    case False
    then show ?thesis by (auto simp: eq)
  next
    case lt: True
    show ?thesis
    proof (cases "legal b i idx")
      case False
      with lt candidates(6) show ?thesis by (auto simp: eq)
    next
      case True
      from candidates(4)[OF lt True] obtain ok b2 where
        r: "solveInner (b[nat idx := i]) (idx + 1) = Inr (ok, b2)" by blast
      show ?thesis
      proof (cases ok)
        case True
        with r lt \<open>legal b i idx\<close> show ?thesis by (auto simp: eq)
      next
        case False
        with r candidates(5)[OF lt \<open>legal b i idx\<close>, of b2] lt \<open>legal b i idx\<close>
        show ?thesis by (auto simp: eq)
      qed
    qed
  qed
qed

text \<open>A failed call hands the board back as it got it.\<close>

lemma solve_fail_81:
  "length b = 81 \<Longrightarrow> 0 \<le> idx \<Longrightarrow> idx \<le> 81 \<Longrightarrow>
     \<forall>b'. solveInner b idx = Inr (False, b') \<longrightarrow> b' = b"
  "length b = 81 \<Longrightarrow> 0 \<le> idx \<Longrightarrow> idx \<le> 80 \<Longrightarrow>
     \<forall>b'. tryValues b idx i = Inr (False, b') \<longrightarrow> b' = b[nat idx := 0]"
proof (induction b idx and b idx i rule: solve_induct_81)
  case (scan b idx)
  from scan(1,2,3) show ?case
  proof (cases rule: solveInner_81)
    case filled
    then show ?thesis by simp
  next
    case (empty j)
    have "b[nat j := 0] = b" using empty(4) by (metis list_update_id)
    with scan(4)[OF empty(1,2,3,4)] empty(5) show ?thesis by simp
  qed
next
  case (candidates b idx i)
  note eq = tryValues_81[OF candidates(1,2,3), of i]
  show ?case
  proof (cases "i < 10")
    case False
    then show ?thesis by (simp add: eq)
  next
    case lt: True
    show ?thesis
    proof (cases "legal b i idx")
      case False
      with lt candidates(6) show ?thesis by (simp add: eq)
    next
      case True
      show ?thesis
      proof (intro allI impI)
        fix b' assume f: "tryValues b idx i = Inr (False, b')"
        from solve_total(1)[of "b[nat idx := i]" "idx + 1"] candidates(1,2,3)
        obtain ok b2 where r: "solveInner (b[nat idx := i]) (idx + 1) = Inr (ok, b2)"
          by auto
        have nok: "\<not> ok" using f r lt True by (cases ok) (simp_all add: eq)
        with r have r': "solveInner (b[nat idx := i]) (idx + 1) = Inr (False, b2)" by simp
        from candidates(4)[OF lt True] r' have b2: "b2 = b[nat idx := i]" by blast
        from f r' lt True have "tryValues b2 idx (i + 1) = Inr (False, b')" by (simp add: eq)
        with candidates(5)[OF lt True r'] have "b' = b2[nat idx := 0]" by blast
        with b2 show "b' = b[nat idx := 0]" by simp
      qed
    qed
  qed
qed

text \<open>From a start index outside \<open>0..81\<close> the first read is outside the slice.\<close>

lemma findNext_from_81:
  "81 \<le> idx \<Longrightarrow> findNextFieldNotSetAlready b idx = Inr idx"
  by (simp add: findNextFieldNotSetAlready.simps)

lemma valuePossibleAt_beyond:
  assumes "length b = 81" "81 \<le> idx"
  shows "valuePossibleAt b v idx = Inl IndexOutOfRange"
proof -
  have "idx sdiv 9 = idx div 9" using assms(2) by (simp add: sdiv_nonneg)
  moreover have "81 div 9 \<le> idx div 9" using assms(2) by (intro zdiv_mono1) auto
  ultimately have "81 \<le> idx sdiv 9 * 9" by simp
  then have "cellAt b (idx sdiv 9 * 9 + 0) = Inl IndexOutOfRange"
    using assms(1) by (simp add: cellAt_81)
  moreover have "[0..8::int] = 0 # [1..8]" by (simp add: upto_rec1)
  ultimately show ?thesis
    unfolding valuePossibleAt_def Let_def by simp
qed

lemma solveInner_out_of_range:
  assumes "length b = 81" "idx < 0 \<or> 81 < idx"
  shows "solveInner b idx = Inl IndexOutOfRange"
proof (cases "idx < 0")
  case True
  then have "findNextFieldNotSetAlready b idx = Inl IndexOutOfRange"
    using assms(1) by (simp add: findNextFieldNotSetAlready.simps cellAt_81)
  then show ?thesis by (simp add: solveInner.simps)
next
  case False
  with assms(2) have gt: "81 < idx" by simp
  then have "findNextFieldNotSetAlready b idx = Inr idx" by (simp add: findNext_from_81)
  moreover have "tryValues b idx 1 = Inl IndexOutOfRange"
    using valuePossibleAt_beyond[OF assms(1), of idx 1] gt
    by (subst tryValues.simps) simp
  ultimately show ?thesis using gt by (simp add: solveInner.simps)
qed

text \<open>The four ways one round of the candidate loop can go.\<close>

lemma tryValues_cases:
  assumes "length b = 81" "0 \<le> idx" "idx \<le> 80" "tryValues b idx i = Inr (ok, b')"
  obtains (exhausted) "\<not> i < 10" "\<not> ok" "b' = b[nat idx := 0]"
  | (skip) "i < 10" "\<not> legal b i idx" "tryValues b idx (i + 1) = Inr (ok, b')"
  | (hit) "i < 10" "legal b i idx" "ok"
      "solveInner (b[nat idx := i]) (idx + 1) = Inr (True, b')"
  | (retry) "i < 10" "legal b i idx"
      "solveInner (b[nat idx := i]) (idx + 1) = Inr (False, b[nat idx := i])"
      "tryValues (b[nat idx := i]) idx (i + 1) = Inr (ok, b')"
proof -
  note eq = tryValues_81[OF assms(1,2,3), of i]
  show thesis
  proof (cases "i < 10")
    case False
    with assms(4) show thesis by (intro exhausted) (simp_all add: eq)
  next
    case lt: True
    show thesis
    proof (cases "legal b i idx")
      case False
      with lt assms(4) show thesis by (intro skip) (simp_all add: eq)
    next
      case True
      have l: "length (b[nat idx := i]) = 81" "0 \<le> idx + 1" "idx + 1 \<le> 81"
        using assms(1,2,3) by simp_all
      from solve_total(1)[OF l]
      obtain ok2 b2 where r: "solveInner (b[nat idx := i]) (idx + 1) = Inr (ok2, b2)"
        by blast
      show thesis
      proof (cases ok2)
        case True
        with r lt \<open>legal b i idx\<close> assms(4) show thesis by (intro hit) (simp_all add: eq)
      next
        case False
        with r solve_fail_81(1)[OF l] have b2: "b2 = b[nat idx := i]" by simp
        with r False lt \<open>legal b i idx\<close> assms(4) show thesis
          by (intro retry) (simp_all add: eq)
      qed
    qed
  qed
qed

text \<open>Cells that are filled when a call starts keep their value.\<close>

lemma solve_frame_81:
  "length b = 81 \<Longrightarrow> 0 \<le> idx \<Longrightarrow> idx \<le> 81 \<Longrightarrow>
     \<forall>ok b'. solveInner b idx = Inr (ok, b') \<longrightarrow> (\<forall>n<81. b ! n \<noteq> 0 \<longrightarrow> b' ! n = b ! n)"
  "length b = 81 \<Longrightarrow> 0 \<le> idx \<Longrightarrow> idx \<le> 80 \<Longrightarrow>
     \<forall>ok b'. tryValues b idx i = Inr (ok, b') \<longrightarrow>
       (\<forall>n<81. n \<noteq> nat idx \<longrightarrow> b ! n \<noteq> 0 \<longrightarrow> b' ! n = b ! n)"
proof (induction b idx and b idx i rule: solve_induct_81)
  case (scan b idx)
  from scan(1,2,3) show ?case
  proof (cases rule: solveInner_81)
    case filled
    then show ?thesis by simp
  next
    case (empty j)
    with scan(4)[OF empty(1,2,3,4)] show ?thesis by (metis)
  qed
next
  case (candidates b idx i)
  show ?case
  proof (intro allI impI)
    fix ok b' n
    assume t: "tryValues b idx i = Inr (ok, b')" and n: "n < 81" "n \<noteq> nat idx" "b ! n \<noteq> 0"
    from candidates(1,2,3) t show "b' ! n = b ! n"
    proof (cases rule: tryValues_cases)
      case exhausted
      with n show ?thesis by simp
    next
      case skip
      with candidates(6) n show ?thesis by blast
    next
      case hit
      with candidates(4) n show ?thesis by (metis nth_list_update_neq)
    next
      case retry
      from candidates(5)[OF retry(1,2,3)] retry(4) n
      have "b' ! n = (b[nat idx := i]) ! n" by (metis nth_list_update_neq)
      with n show ?thesis by simp
    qed
  qed
qed

text \<open>
  C4.  On an 81-cell board, from whatever start index, a call of \<open>solveInner\<close> that
  returns failure returns the board exactly as it was when the call started: every
  cell, the exhausted one included, holds its value from before the call.
\<close>

theorem solveInner_failure_restores:
  assumes "length b = 81" "solveInner b i = Inr (False, b')"
  shows "b' = b"
proof (cases "0 \<le> i \<and> i \<le> 81")
  case True
  with solve_fail_81(1)[OF assms(1), of i] assms(2) show ?thesis by blast
next
  case False
  then have "solveInner b i = Inl IndexOutOfRange"
    by (intro solveInner_out_of_range[OF assms(1)]) auto
  with assms(2) show ?thesis by simp
qed

theorem solveInner_failure_restores_witness:
  "length deadEndBoard = 81 \<and> legal deadEndBoard 1 0 \<and>
   solveInner deadEndBoard 0 = Inr (False, deadEndBoard)"
proof -
  have len: "length deadEndBoard = 81" by (simp add: deadEndBoard_def)
  have l: "legal deadEndBoard 1 0" by code_simp
  have "fst (projr (solveInner deadEndBoard 0)) = False \<and> isl (solveInner deadEndBoard 0) = False"
    by code_simp
  then obtain b' where r: "solveInner deadEndBoard 0 = Inr (False, b')"
    by (cases "solveInner deadEndBoard 0") auto
  from solveInner_failure_restores[OF len r] r len l show ?thesis by simp
qed

text \<open>
  C10.  On an 81-cell board, from whatever start index, every cell that is filled when
  \<open>solveInner\<close> is called holds the same value when the call returns, with success or
  with failure: only cells that were empty at the call can differ afterwards.
\<close>

theorem solveInner_preserves_clues:
  assumes "length b = 81" "solveInner b i = Inr (ok, b')" "n < 81" "b ! n \<noteq> 0"
  shows "b' ! n = b ! n"
proof (cases "0 \<le> i \<and> i \<le> 81")
  case True
  with solve_frame_81(1)[OF assms(1), of i] assms(2,3,4) show ?thesis by blast
next
  case False
  then have "solveInner b i = Inl IndexOutOfRange"
    by (intro solveInner_out_of_range[OF assms(1)]) auto
  with assms(2) show ?thesis by simp
qed

theorem solveInner_preserves_clues_witness:
  "length twoBlanks = 81 \<and> twoBlanks ! 79 = 7 \<and>
   (\<exists>b'. solveInner twoBlanks 0 = Inr (True, b') \<and> b' ! 79 = 7)"
proof -
  have len: "length twoBlanks = 81" by (simp add: twoBlanks_def solvedExample_def)
  have c: "twoBlanks ! 79 = 7" by (simp add: twoBlanks_def solvedExample_def)
  have "fst (projr (solveInner twoBlanks 0)) = True \<and> isl (solveInner twoBlanks 0) = False"
    by code_simp
  then obtain b' where r: "solveInner twoBlanks 0 = Inr (True, b')"
    by (cases "solveInner twoBlanks 0") auto
  from solveInner_preserves_clues[OF len r, of 79] c have "b' ! 79 = 7" by simp
  with r len c show ?thesis by blast
qed

section \<open>Units and pairwise consistency\<close>

lemma sameUnit_sym: "sameUnit i j \<Longrightarrow> sameUnit j i"
  unfolding sameUnit_def by metis

lemma sameUnit_refl: "sameUnit i i"
  unfolding sameUnit_def by simp

text \<open>The cells of a unit are nine different cells of the board that all see each other.\<close>

lemma units_shape:
  "\<forall>u\<in>set units. length u = 9 \<and> distinct u \<and>
     (\<forall>i\<in>set u. 0 \<le> i \<and> i \<le> 80 \<and> (\<forall>j\<in>set u. sameUnit i j))"
  by code_simp



lemma row_in_units: "0 \<le> r \<Longrightarrow> r \<le> 8 \<Longrightarrow> map (\<lambda>k. r * 9 + k) [0..8] \<in> set units"
  unfolding units_def rows_def set_append set_map set_upto
  by (intro UnI1 imageI) simp

lemma column_in_units: "0 \<le> c \<Longrightarrow> c \<le> 8 \<Longrightarrow> map (\<lambda>k. c + k * 9) [0..8] \<in> set units"
  unfolding units_def columns_def set_append set_map set_upto
  by (intro UnI2 UnI1 imageI) simp

lemma in_concatI: "xs \<in> set xss \<Longrightarrow> x \<in> set xs \<Longrightarrow> x \<in> set (concat xss)"
  by auto

lemma in_mapI: "x \<in> set xs \<Longrightarrow> f x \<in> set (map f xs)"
  by simp

lemma block_in_units:
  assumes "0 \<le> br" "br \<le> 2" "0 \<le> bc" "bc \<le> 2"
  shows "map (\<lambda>offset. br * 27 + bc * 3 + offset) blockOffsets \<in> set units"
proof -
  let ?F = "\<lambda>br bc. map (\<lambda>offset. br * 27 + bc * 3 + offset) blockOffsets"
  have bc: "bc \<in> set [0..2]" and br: "br \<in> set [0..2]"
    unfolding set_upto using assms by simp_all
  have 1: "?F br bc \<in> set (map (?F br) [0..2])"
    by (rule in_mapI[of bc "[0..2]" "?F br", OF bc])
  have 2: "map (?F br) [0..2] \<in> set (map (\<lambda>br. map (?F br) [0..2]) [0..2])"
    by (rule in_mapI[of br "[0..2]" "\<lambda>br. map (?F br) [0..2]", OF br])
  have "?F br bc \<in> set blocks"
    unfolding blocks_def by (rule in_concatI[OF 2 1])
  then show ?thesis unfolding units_def set_append by (intro UnI2)
qed

text \<open>Two cells that see each other lie in a common unit.\<close>

lemma common_unit:
  assumes i: "0 \<le> i" "i \<le> 80" and j: "0 \<le> j" "j \<le> 80" and s: "sameUnit i j"
  shows "\<exists>u\<in>set units. i \<in> set u \<and> j \<in> set u"
proof -
  note bi = index_bounds[OF i]
  from s consider (row) "i div 9 = j div 9" | (col) "i mod 9 = j mod 9"
    | (block) "i div 27 = j div 27 \<and> i mod 9 div 3 = j mod 9 div 3"
    unfolding sameUnit_def by blast
  then show ?thesis
  proof cases
    case row
    let ?u = "map (\<lambda>k. i div 9 * 9 + k) [0..8]"
    have "i \<in> set ?u" "j \<in> set ?u" unfolding row_indices using row by simp_all
    with row_in_units[OF bi(1,2)] show ?thesis by blast
  next
    case col
    let ?u = "map (\<lambda>k. i mod 9 + k * 9) [0..8]"
    have "i \<in> set ?u" "j \<in> set ?u" unfolding column_indices[OF i] using col i j by simp_all
    with column_in_units[OF bi(3,4)] show ?thesis by blast
  next
    case block
    let ?u = "map (\<lambda>offset. i div 27 * 27 + i mod 9 div 3 * 3 + offset) blockOffsets"
    have "i \<in> set ?u" "j \<in> set ?u"
      unfolding in_set_map_iff block_aux[OF bi(7,8)] using block by simp_all
    with block_in_units[OF bi(5,6,7,8)] show ?thesis by blast
  qed
qed

lemma distinct_filter_map:
  "distinct (filter P (map f xs)) \<Longrightarrow> x \<in> set xs \<Longrightarrow> y \<in> set xs \<Longrightarrow> x \<noteq> y \<Longrightarrow>
     P (f x) \<Longrightarrow> f x \<noteq> f y"
  by (induction xs) (auto split: if_splits simp: image_iff)

lemma noDuplicates_consistent:
  assumes "noDuplicates b"
  shows "consistent b"
  unfolding consistent_def
proof (intro ballI impI)
  fix i j :: int
  assume i: "i \<in> {0..80}" and j: "j \<in> {0..80}"
    and h: "i \<noteq> j \<and> sameUnit i j \<and> b ! nat i \<noteq> 0"
  from common_unit[of i j] i j h obtain u where
    u: "u \<in> set units" "i \<in> set u" "j \<in> set u" by auto
  from assms u(1) have "distinct (filter (\<lambda>x. x \<noteq> 0) (map (\<lambda>j. b ! nat j) u))"
    unfolding noDuplicates_def valuesAt_def by blast
  from distinct_filter_map[OF this u(2,3)] h show "b ! nat i \<noteq> b ! nat j" by blast
qed

lemma count_list_distinct: "distinct xs \<Longrightarrow> x \<in> set xs \<Longrightarrow> count_list xs x = 1"
  by (induction xs) (auto simp: count_list_0_iff)

text \<open>Nine different digits are all the digits.\<close>

lemma nine_digits:
  assumes "distinct xs" "length xs = 9" "set xs \<subseteq> {1..9::int}"
  shows "set xs = {1..9}"
proof -
  have "card (set xs) = 9" using assms(1,2) by (simp add: distinct_card)
  then have "card (set xs) = card {1..9::int}" by simp
  with assms(3) show ?thesis by (intro card_subset_eq) auto
qed

lemma consistent_filled_solved:
  assumes len: "length b = 81" and c: "consistent b"
    and d: "\<forall>n<81. 1 \<le> b ! n \<and> b ! n \<le> 9"
  shows "solved b"
proof -
  have z: "0 \<notin> set b"
  proof
    assume "0 \<in> set b"
    then obtain n where "n < length b" "b ! n = 0" by (auto simp: in_set_conv_nth)
    with d len show False by auto
  qed
  have "count_list (valuesAt b u) v = 1" if u: "u \<in> set units" and v: "v \<in> {1..9}" for u v
  proof -
    from units_shape u have sh: "length u = 9" "distinct u"
      "\<forall>i\<in>set u. 0 \<le> i \<and> i \<le> 80 \<and> (\<forall>j\<in>set u. sameUnit i j)" by blast+
    have inj: "inj_on (\<lambda>j. b ! nat j) (set u)"
    proof (rule inj_onI)
      fix i j assume ij: "i \<in> set u" "j \<in> set u" "b ! nat i = b ! nat j"
      show "i = j"
      proof (rule ccontr)
        assume ne: "i \<noteq> j"
        from sh(3) ij have r: "i \<in> {0..80}" "j \<in> {0..80}" "sameUnit i j" by auto
        from r(1) d have "b ! nat i \<noteq> 0" by (auto dest!: spec[of _ "nat i"])
        with c r ne have "b ! nat i \<noteq> b ! nat j" unfolding consistent_def by blast
        with ij(3) show False by simp
      qed
    qed
    have dist: "distinct (valuesAt b u)"
      unfolding valuesAt_def using sh(2) inj by (simp add: distinct_map)
    have sub: "set (valuesAt b u) \<subseteq> {1..9}"
    proof
      fix x assume "x \<in> set (valuesAt b u)"
      then obtain j where "j \<in> set u" "x = b ! nat j" unfolding valuesAt_def by auto
      with sh(3) d show "x \<in> {1..9}" by (auto dest!: spec[of _ "nat j"])
    qed
    have "length (valuesAt b u) = 9" unfolding valuesAt_def using sh(1) by simp
    from nine_digits[OF dist this sub] v have "v \<in> set (valuesAt b u)" by simp
    with dist show ?thesis by (rule count_list_distinct)
  qed
  with len z show ?thesis unfolding solved_def by blast
qed

section \<open>What a successful search returns\<close>

lemma consistent_update:
  assumes len: "length b = 81" and idx: "0 \<le> idx" "idx \<le> 80"
    and c: "consistent (b[nat idx := 0])" and l: "legal b v idx"
  shows "consistent (b[nat idx := v])"
  unfolding consistent_def
proof (intro ballI impI)
  fix i j :: int
  assume i: "i \<in> {0..80}" and j: "j \<in> {0..80}"
    and h: "i \<noteq> j \<and> sameUnit i j \<and> b[nat idx := v] ! nat i \<noteq> 0"
  from i j idx have ni: "(nat i = nat idx) = (i = idx)" and nj: "(nat j = nat idx) = (j = idx)"
    by (simp_all add: eq_nat_nat_iff)
  from i j len have li: "nat i < length b" and lj: "nat j < length b"
    by (simp_all add: nat_less_iff)
  note lj' = l[unfolded legal_def, rule_format, OF j]
  note li' = l[unfolded legal_def, rule_format, OF i]
  show "b[nat idx := v] ! nat i \<noteq> b[nat idx := v] ! nat j"
  proof (cases "i = idx")
    case True
    with h have jn: "j \<noteq> idx" and s: "sameUnit idx j" by simp_all
    from lj'[OF s] have "b ! nat j \<noteq> v" .
    with True jn li nj show ?thesis by simp
  next
    case False
    show ?thesis
    proof (cases "j = idx")
      case True
      from h True have "sameUnit idx i" using sameUnit_sym[of i j] by simp
      from li'[OF this] have "b ! nat i \<noteq> v" .
      with True False lj ni show ?thesis by simp
    next
      case jn: False
      from False jn ni nj have e: "b[nat idx := 0] ! nat i = b ! nat i"
        "b[nat idx := 0] ! nat j = b ! nat j"
        "b[nat idx := v] ! nat i = b ! nat i" "b[nat idx := v] ! nat j = b ! nat j"
        by simp_all
      from h have "i \<noteq> j \<and> sameUnit i j \<and> b[nat idx := 0] ! nat i \<noteq> 0"
        unfolding e by simp
      from c[unfolded consistent_def, rule_format, OF i j this]
      show ?thesis unfolding e .
    qed
  qed
qed

text \<open>
  After a successful call every cell from the start index on is filled, a cell that was
  empty holds a digit \<open>1..9\<close> or is still empty, and a board without duplicates among
  cells that see each other stays so.
\<close>

lemma solve_success_81:
  "length b = 81 \<Longrightarrow> 0 \<le> idx \<Longrightarrow> idx \<le> 81 \<Longrightarrow>
     \<forall>b'. solveInner b idx = Inr (True, b') \<longrightarrow>
       (\<forall>n<81. nat idx \<le> n \<longrightarrow> b' ! n \<noteq> 0) \<and>
       (\<forall>n<81. b ! n = 0 \<longrightarrow> b' ! n = 0 \<or> (1 \<le> b' ! n \<and> b' ! n \<le> 9)) \<and>
       (consistent b \<longrightarrow> consistent b')"
  "length b = 81 \<Longrightarrow> 0 \<le> idx \<Longrightarrow> idx \<le> 80 \<Longrightarrow>
     1 \<le> i \<longrightarrow> (\<forall>b'. tryValues b idx i = Inr (True, b') \<longrightarrow>
       (\<forall>n<81. nat idx \<le> n \<longrightarrow> b' ! n \<noteq> 0) \<and>
       (\<forall>n<81. n = nat idx \<or> b ! n = 0 \<longrightarrow> b' ! n = 0 \<or> (1 \<le> b' ! n \<and> b' ! n \<le> 9)) \<and>
       (consistent (b[nat idx := 0]) \<longrightarrow> consistent b'))"
proof (induction b idx and b idx i rule: solve_induct_81)
  case (scan b idx)
  from scan(1,2,3) show ?case
  proof (cases rule: solveInner_81)
    case filled
    have "b ! n \<noteq> 0" if "n < 81" "nat idx \<le> n" for n
      using filled(3)[rule_format, of "int n"] that scan(2) by auto
    with filled(2) show ?thesis by auto
  next
    case (empty j)
    have id: "b[nat j := 0] = b" using empty(4) by (metis list_update_id)
    note ih = scan(4)[OF empty(1,2,3,4), simplified, rule_format, unfolded id]
    show ?thesis
    proof (intro allI impI conjI)
      fix b' n
      assume r: "solveInner b idx = Inr (True, b')"
      then have t: "tryValues b j 1 = Inr (True, b')" using empty(5) by simp
      { assume n: "n < 81" "nat idx \<le> n"
        show "b' ! n \<noteq> 0"
        proof (cases "nat j \<le> n")
          case True
          with ih[OF t] n show ?thesis by blast
        next
          case False
          with n empty(2) scan(2) have "idx \<le> int n \<and> int n < j" by auto
          with empty(6) have "b ! n \<noteq> 0" by (metis nat_int)
          with solve_frame_81(1)[OF scan(1,2,3)] r n show ?thesis by metis
        qed }
      { assume "n < 81" "b ! n = 0"
        with ih[OF t] show "b' ! n = 0 \<or> 1 \<le> b' ! n \<and> b' ! n \<le> 9" by blast }
    next
      fix b' assume r: "solveInner b idx = Inr (True, b')" and c: "consistent b"
      then have t: "tryValues b j 1 = Inr (True, b')" using empty(5) by simp
      with ih[OF t] c show "consistent b'" by blast
    qed
  qed
next
  case (candidates b idx i)
  note len = candidates(1) and idx = candidates(2,3)
  show ?case
  proof (intro allI impI)
    fix b'
    assume i1: "1 \<le> i" and t: "tryValues b idx i = Inr (True, b')"
    have l1: "length (b[nat idx := i]) = 81" "0 \<le> idx + 1" "idx + 1 \<le> 81"
      using len idx by simp_all
    have nidx: "nat idx < 81" "nat (idx + 1) = Suc (nat idx)" using idx by auto
    from len idx t show
      "(\<forall>n<81. nat idx \<le> n \<longrightarrow> b' ! n \<noteq> 0) \<and>
       (\<forall>n<81. n = nat idx \<or> b ! n = 0 \<longrightarrow> b' ! n = 0 \<or> (1 \<le> b' ! n \<and> b' ! n \<le> 9)) \<and>
       (consistent (b[nat idx := 0]) \<longrightarrow> consistent b')"
    proof (cases rule: tryValues_cases)
      case exhausted
      then show ?thesis by simp
    next
      case skip
      have i1': "1 \<le> i + 1" using i1 by simp
      from candidates(6)[OF skip(1,2), rule_format, OF i1' skip(3)] show ?thesis .
    next
      case hit
      note ih = candidates(4)[OF hit(1,2), rule_format, OF hit(4)]
      have at: "b' ! nat idx = i"
        using solve_frame_81(1)[OF l1, rule_format, OF hit(4), of "nat idx"] nidx len i1
        by simp
      have A: "\<forall>n<81. nat idx \<le> n \<longrightarrow> b' ! n \<noteq> 0"
      proof (intro allI impI)
        fix n assume n: "n < 81" "nat idx \<le> n"
        show "b' ! n \<noteq> 0"
        proof (cases "n = nat idx")
          case True
          with at i1 show ?thesis by simp
        next
          case False
          with n nidx ih show ?thesis by auto
        qed
      qed
      have B: "\<forall>n<81. n = nat idx \<or> b ! n = 0 \<longrightarrow> b' ! n = 0 \<or> (1 \<le> b' ! n \<and> b' ! n \<le> 9)"
      proof (intro allI impI)
        fix n assume n: "n < 81" "n = nat idx \<or> b ! n = 0"
        show "b' ! n = 0 \<or> (1 \<le> b' ! n \<and> b' ! n \<le> 9)"
        proof (cases "n = nat idx")
          case True
          with at i1 hit(1) show ?thesis by simp
        next
          case False
          with n have "(b[nat idx := i]) ! n = 0" by simp
          with ih n(1) show ?thesis by blast
        qed
      qed
      have C: "consistent (b[nat idx := 0]) \<longrightarrow> consistent b'"
        using consistent_update[OF len idx _ hit(2)] ih by blast
      from A B C show ?thesis by blast
    next
      case retry
      have i1': "1 \<le> i + 1" using i1 by simp
      note ih = candidates(5)[OF retry(1,2,3), rule_format, OF i1' retry(4)]
      have e: "b[nat idx := i, nat idx := 0] = b[nat idx := 0]" by simp
      have B: "\<forall>n<81. n = nat idx \<or> b ! n = 0 \<longrightarrow> b' ! n = 0 \<or> (1 \<le> b' ! n \<and> b' ! n \<le> 9)"
      proof (intro allI impI)
        fix n assume n: "n < 81" "n = nat idx \<or> b ! n = 0"
        then have "n = nat idx \<or> (b[nat idx := i]) ! n = 0" by (cases "n = nat idx") simp_all
        with ih n(1) show "b' ! n = 0 \<or> (1 \<le> b' ! n \<and> b' ! n \<le> 9)" by blast
      qed
      from ih B show ?thesis unfolding e by blast
    qed
  qed
qed

text \<open>
  C2.  For a board of 81 cells holding \<open>0..9\<close> whose filled cells violate no row, column
  or block uniqueness: if \<open>solveInner\<close> called at index 0 returns success, the board it
  returns has no empty cell, and every row, every column and every block holds each of
  the digits \<open>1..9\<close> exactly once.
\<close>

theorem solveInner_success_solved:
  assumes "wellFormed b" "noDuplicates b" "solveInner b 0 = Inr (True, b')"
  shows "0 \<notin> set b' \<and> (\<forall>u\<in>set units. \<forall>d\<in>{1..9}. count_list (valuesAt b' u) d = 1)"
proof -
  from assms(1) have len: "length b = 81" and cells: "\<forall>x\<in>set b. 0 \<le> x \<and> x \<le> 9"
    unfolding wellFormed_def by simp_all
  have len': "length b' = 81" using solve_length(1)[OF assms(3)] len by simp
  note s = solve_success_81(1)[OF len, of 0, simplified, rule_format, OF assms(3)]
  have c': "consistent b'" using s noDuplicates_consistent[OF assms(2)] by blast
  have d: "\<forall>n<81. 1 \<le> b' ! n \<and> b' ! n \<le> 9"
  proof (intro allI impI)
    fix n :: nat assume n: "n < 81"
    from s n have nz: "b' ! n \<noteq> 0" by blast
    show "1 \<le> b' ! n \<and> b' ! n \<le> 9"
    proof (cases "b ! n = 0")
      case True
      with s n nz show ?thesis by blast
    next
      case False
      from solve_frame_81(1)[OF len, of 0, simplified, rule_format, OF assms(3) n False]
      have e: "b' ! n = b ! n" .
      from cells n len have "0 \<le> b ! n \<and> b ! n \<le> 9" by (metis nth_mem)
      with e False show ?thesis by simp
    qed
  qed
  from consistent_filled_solved[OF len' c' d] show ?thesis unfolding solved_def by blast
qed

theorem solveInner_success_solved_witness:
  "wellFormed twoBlanks \<and> noDuplicates twoBlanks \<and>
   solveInner twoBlanks 0 = Inr (True, solvedExample) \<and> 0 \<notin> set solvedExample \<and>
   count_list (valuesAt solvedExample [0, 1, 2, 9, 10, 11, 18, 19, 20]) 4 = 1"
proof -
  have w: "wellFormed twoBlanks" and n: "noDuplicates twoBlanks" by code_simp+
  have r: "solveInner twoBlanks 0 = Inr (True, solvedExample)" by code_simp
  have u: "[0, 1, 2, 9, 10, 11, 18, 19, 20] \<in> set units" by code_simp
  from solveInner_success_solved[OF w n r] u w n r show ?thesis by simp
qed

section \<open>Solved boards\<close>

lemma count_list_filter: "P d \<Longrightarrow> count_list (filter P xs) d = count_list xs d"
  by (induction xs) auto

lemma filter_length_all: "length (filter P xs) = length xs \<Longrightarrow> \<forall>x\<in>set xs. P x"
  by (metis length_filter_less less_irrefl)

text \<open>A list of nine values in which each digit occurs exactly once consists of the digits.\<close>

lemma exactly_once_digits:
  assumes len: "length xs = 9" and once: "\<forall>d\<in>{1..9::int}. count_list xs d = 1"
  shows "distinct xs \<and> set xs = {1..9}"
proof -
  let ?ys = "filter (\<lambda>x. x \<in> {1..9}) xs"
  have "sum (count_list ?ys) {1..9} = length ?ys"
    by (intro sum_count_set) auto
  moreover have "sum (count_list ?ys) {1..9} = sum (count_list xs) {1..9}"
    by (intro sum.cong refl) (simp add: count_list_filter)
  moreover have "sum (count_list xs) {1..9} = sum (\<lambda>d. 1) {1..9::int}"
    using once by (intro sum.cong refl) simp
  ultimately have "length ?ys = length xs" using len by simp
  then have sub: "set xs \<subseteq> {1..9}" using filter_length_all by blast
  have "{1..9} \<subseteq> set xs"
  proof
    fix d :: int assume "d \<in> {1..9}"
    with once have "count_list xs d \<noteq> 0" by simp
    then show "d \<in> set xs" by (simp add: count_list_0_iff)
  qed
  with sub have eq: "set xs = {1..9}" by blast
  then have "card (set xs) = length xs" using len by simp
  then have "distinct xs" by (rule card_distinct)
  with eq show ?thesis by simp
qed

lemma solved_unit:
  assumes "solved s" "u \<in> set units"
  shows "distinct (valuesAt s u)" "set (valuesAt s u) = {1..9}"
proof -
  from units_shape assms(2) have "length (valuesAt s u) = 9" unfolding valuesAt_def by simp
  moreover from assms have "\<forall>d\<in>{1..9}. count_list (valuesAt s u) d = 1"
    unfolding solved_def by blast
  ultimately have "distinct (valuesAt s u) \<and> set (valuesAt s u) = {1..9}"
    by (rule exactly_once_digits)
  then show "distinct (valuesAt s u)" "set (valuesAt s u) = {1..9}" by simp_all
qed

lemma solved_digit:
  assumes "solved s" "0 \<le> i" "i \<le> 80"
  shows "1 \<le> s ! nat i \<and> s ! nat i \<le> 9"
proof -
  from common_unit[OF assms(2,3) assms(2,3) sameUnit_refl]
  obtain u where u: "u \<in> set units" "i \<in> set u" by blast
  then have "s ! nat i \<in> set (valuesAt s u)" unfolding valuesAt_def by simp
  with solved_unit(2)[OF assms(1) u(1)] show ?thesis by simp
qed

lemma solved_differ:
  assumes "solved s" "0 \<le> i" "i \<le> 80" "0 \<le> j" "j \<le> 80" "i \<noteq> j" "sameUnit i j"
  shows "s ! nat i \<noteq> s ! nat j"
proof -
  from common_unit[OF assms(2,3,4,5,7)]
  obtain u where u: "u \<in> set units" "i \<in> set u" "j \<in> set u" by blast
  from units_shape u(1) have du: "distinct u" by blast
  from solved_unit(1)[OF assms(1) u(1)] have "inj_on (\<lambda>j. s ! nat j) (set u)"
    unfolding valuesAt_def by (simp add: distinct_map)
  from inj_onD[OF this _ u(2,3)] assms(6) show ?thesis by blast
qed

lemma extends_nth:
  "extends b s \<Longrightarrow> n < length b \<Longrightarrow> b ! n \<noteq> 0 \<Longrightarrow> s ! n = b ! n"
  unfolding extends_def by blast

lemma extends_fill:
  assumes "extends (b[n := 0]) s" "v = s ! n"
  shows "extends (b[n := v]) s"
  unfolding extends_def
proof (intro conjI allI impI)
  show "length s = length (b[n := v])" using assms(1) unfolding extends_def by simp
next
  fix m assume m: "m < length (b[n := v])" "b[n := v] ! m \<noteq> 0"
  show "s ! m = b[n := v] ! m"
  proof (cases "m = n")
    case True
    with m assms(2) show ?thesis by simp
  next
    case False
    with m have "m < length (b[n := 0])" "b[n := 0] ! m \<noteq> 0" by simp_all
    from extends_nth[OF assms(1) this] False show ?thesis by simp
  qed
qed

text \<open>The digit a solution has at a cell is legal there while the board agrees with it.\<close>

lemma solution_legal:
  assumes len: "length b = 81" and idx: "0 \<le> idx" "idx \<le> 80"
    and s: "solved s" and e: "extends (b[nat idx := 0]) s"
    and own: "b ! nat idx \<noteq> s ! nat idx"
  shows "legal b (s ! nat idx) idx"
  unfolding legal_def
proof (intro ballI impI)
  fix j :: int assume j: "j \<in> {0..80}" and su: "sameUnit idx j"
  show "b ! nat j \<noteq> s ! nat idx"
  proof (cases "j = idx")
    case True
    with own show ?thesis by simp
  next
    case False
    then have ne: "nat j \<noteq> nat idx" using j idx by (simp add: eq_nat_nat_iff)
    have lj: "nat j < length (b[nat idx := 0])" using j len by (simp add: nat_less_iff)
    show ?thesis
    proof (cases "b ! nat j = 0")
      case True
      with solved_digit[OF s idx] show ?thesis by simp
    next
      case nz: False
      with ne have "b[nat idx := 0] ! nat j \<noteq> 0" by simp
      from extends_nth[OF e lj this] ne have "s ! nat j = b ! nat j" by simp
      moreover from j have "0 \<le> j" "j \<le> 80" by simp_all
      from solved_differ[OF s idx this _ su] False have "s ! nat idx \<noteq> s ! nat j" by blast
      ultimately show ?thesis by simp
    qed
  qed
qed

section \<open>Completeness of the search\<close>

lemma solve_complete_81:
  "length b = 81 \<Longrightarrow> 0 \<le> idx \<Longrightarrow> idx \<le> 81 \<Longrightarrow>
     \<forall>s. solved s \<and> extends b s \<longrightarrow> (\<exists>b'. solveInner b idx = Inr (True, b'))"
  "length b = 81 \<Longrightarrow> 0 \<le> idx \<Longrightarrow> idx \<le> 80 \<Longrightarrow>
     \<forall>s. solved s \<and> extends (b[nat idx := 0]) s \<and> i \<le> s ! nat idx \<and> b ! nat idx < i \<longrightarrow>
       (\<exists>b'. tryValues b idx i = Inr (True, b'))"
proof (induction b idx and b idx i rule: solve_induct_81)
  case (scan b idx)
  from scan(1,2,3) show ?case
  proof (cases rule: solveInner_81)
    case filled
    then show ?thesis by blast
  next
    case (empty j)
    have id: "b[nat j := 0] = b" using empty(4) by (metis list_update_id)
    have j0: "0 \<le> j" using empty(2) scan(2) by simp
    show ?thesis
    proof (intro allI impI)
      fix s assume s: "solved s \<and> extends b s"
      with solved_digit[OF _ j0 empty(3), of s] empty(4)
      have "solved s \<and> extends (b[nat j := 0]) s \<and> 1 \<le> s ! nat j \<and> b ! nat j < 1"
        unfolding id by simp
      with scan(4)[OF empty(1,2,3,4)] empty(5)
      show "\<exists>b'. solveInner b idx = Inr (True, b')" by metis
    qed
  qed
next
  case (candidates b idx i)
  note len = candidates(1) and idx = candidates(2,3)
  show ?case
  proof (intro allI impI)
    fix s
    assume h: "solved s \<and> extends (b[nat idx := 0]) s \<and> i \<le> s ! nat idx \<and> b ! nat idx < i"
    then have s: "solved s" and e: "extends (b[nat idx := 0]) s"
      and i: "i \<le> s ! nat idx" and own: "b ! nat idx < i" by simp_all
    from solved_digit[OF s idx] i have lt: "i < 10" by simp
    from solve_total(2)[OF len idx, of i] obtain ok b' where
      t: "tryValues b idx i = Inr (ok, b')" by blast
    have fin: "legal b i idx \<Longrightarrow> i = s ! nat idx \<Longrightarrow>
        \<exists>b'. solveInner (b[nat idx := i]) (idx + 1) = Inr (True, b')"
      using candidates(4)[OF lt] extends_fill[OF e] s by blast
    have own': "b ! nat idx \<noteq> s ! nat idx" using i own by simp
    from len idx t show "\<exists>b'. tryValues b idx i = Inr (True, b')"
    proof (cases rule: tryValues_cases)
      case exhausted
      with lt show ?thesis by simp
    next
      case skip
      from solution_legal[OF len idx s e own'] skip(2) have "i \<noteq> s ! nat idx" by blast
      with i own have "i + 1 \<le> s ! nat idx \<and> b ! nat idx < i + 1" by simp
      with candidates(6)[OF skip(1,2)] s e t skip(3) show ?thesis by metis
    next
      case hit
      with t show ?thesis by auto
    next
      case retry
      from fin[OF retry(2)] retry(3) have "i \<noteq> s ! nat idx" by auto
      with i have i': "i + 1 \<le> s ! nat idx" by simp
      have "nat idx < length b" using len idx by (simp add: nat_less_iff)
      then have "(b[nat idx := i]) ! nat idx < i + 1" by simp
      moreover have "extends (b[nat idx := i, nat idx := 0]) s" using e by simp
      ultimately show ?thesis
        using candidates(5)[OF retry(1,2,3)] s i' retry(4) t by metis
    qed
  qed
qed

section \<open>The parallel decomposition\<close>

lemma copyBoard_81: "length b = 81 \<Longrightarrow> copyBoard b = b"
  unfolding copyBoard_def NewBoard_def by simp

lemma branch_81:
  "length b = 81 \<Longrightarrow> 0 \<le> i \<Longrightarrow> i \<le> 80 \<Longrightarrow>
     branch b i v = solveInner (b[nat i := v]) (i + 1)"
  unfolding branch_def by (simp add: copyBoard_81 setCell_81)

text \<open>What the cell under trial holds does not matter for a candidate different from it.\<close>

lemma legal_own_cell:
  assumes "0 \<le> i" "i \<le> 80" "length b = 81" "b ! nat i \<noteq> v" "v \<noteq> 0"
  shows "legal b v i = legal (b[nat i := 0]) v i"
proof -
  have "(b ! nat j \<noteq> v) = (b[nat i := 0] ! nat j \<noteq> v)" if "j \<in> {0..80}" for j
  proof (cases "j = i")
    case True
    with assms show ?thesis by (simp add: nat_less_iff)
  next
    case False
    with that assms(1,2) have "nat j \<noteq> nat i" by (simp add: eq_nat_nat_iff)
    then show ?thesis by simp
  qed
  then show ?thesis unfolding legal_def by blast
qed

text \<open>
  The candidate loop from candidate \<open>k\<close> on succeeds exactly when some candidate from
  \<open>k\<close> on is legal and the search behind it succeeds; the board it returns is the
  board of such a candidate.
\<close>

lemma tryValues_candidates:
  assumes len: "length b = 81" and idx: "0 \<le> i" "i \<le> 80"
    and k: "1 \<le> k" "b ! nat i < k"
  shows "(tryValues b i k = Inr (True, b') \<longrightarrow>
           (\<exists>v. k \<le> v \<and> v \<le> 9 \<and> legal (b[nat i := 0]) v i \<and>
                solveInner (b[nat i := v]) (i + 1) = Inr (True, b'))) \<and>
         (\<forall>c. (\<exists>v. k \<le> v \<and> v \<le> 9 \<and> legal (b[nat i := 0]) v i \<and>
                solveInner (b[nat i := v]) (i + 1) = Inr (True, c)) \<longrightarrow>
           (\<exists>c'. tryValues b i k = Inr (True, c')))"
  using len k
proof (induction "nat (10 - k)" arbitrary: k b)
  case 0
  then have "\<not> k < 10" by simp
  then show ?case by (simp add: tryValues_81[OF "0.prems"(1) idx])
next
  case (Suc n)
  note len = Suc.prems(1) and k = Suc.prems(2,3)
  from Suc(2) have lt: "k < 10" and n: "n = nat (10 - (k + 1))" by simp_all
  have k1: "1 \<le> k + 1" using k by simp
  have li: "nat i < length b" using len idx by (simp add: nat_less_iff)
  have lg: "legal b k i = legal (b[nat i := 0]) k i"
    using legal_own_cell[OF idx len, of k] k by simp
  let ?R = "\<lambda>k c. \<exists>v. k \<le> v \<and> v \<le> 9 \<and> legal (b[nat i := 0]) v i \<and>
                solveInner (b[nat i := v]) (i + 1) = Inr (True, c)"
  have split: "?R k c = ((legal (b[nat i := 0]) k i \<and>
        solveInner (b[nat i := k]) (i + 1) = Inr (True, c)) \<or> ?R (k + 1) c)" for c
  proof
    assume "?R k c"
    then obtain v where v: "k \<le> v" "v \<le> 9" "legal (b[nat i := 0]) v i"
      "solveInner (b[nat i := v]) (i + 1) = Inr (True, c)" by blast
    show "(legal (b[nat i := 0]) k i \<and>
        solveInner (b[nat i := k]) (i + 1) = Inr (True, c)) \<or> ?R (k + 1) c"
    proof (cases "v = k")
      case True
      with v show ?thesis by blast
    next
      case False
      with v(1) have "k + 1 \<le> v" by simp
      with v show ?thesis by blast
    qed
  next
    assume "(legal (b[nat i := 0]) k i \<and>
        solveInner (b[nat i := k]) (i + 1) = Inr (True, c)) \<or> ?R (k + 1) c"
    then show "?R k c"
    proof
      assume "legal (b[nat i := 0]) k i \<and> solveInner (b[nat i := k]) (i + 1) = Inr (True, c)"
      with lt show ?thesis by (intro exI[of _ k]) simp
    next
      assume "?R (k + 1) c"
      then obtain v where v: "k + 1 \<le> v" "v \<le> 9" "legal (b[nat i := 0]) v i"
        "solveInner (b[nat i := v]) (i + 1) = Inr (True, c)" by blast
      from v(1) have "k \<le> v" by simp
      with v show ?thesis by blast
    qed
  qed
  from solve_total(1)[of "b[nat i := k]" "i + 1"] len idx
  obtain ok b2 where r: "solveInner (b[nat i := k]) (i + 1) = Inr (ok, b2)" by auto
  show ?case
  proof (cases "legal b k i")
    case False
    have eq: "tryValues b i k = tryValues b i (k + 1)"
      using False lt by (simp add: tryValues_81[OF len idx])
    have "b ! nat i < k + 1" using k by simp
    from Suc(1)[OF n len k1 this] False lg show ?thesis
      unfolding eq split by blast
  next
    case True
    show ?thesis
    proof (cases ok)
      case ok: True
      have eq: "tryValues b i k = Inr (True, b2)"
        using True lt r ok by (simp add: tryValues_81[OF len idx])
      from True lg r ok lt show ?thesis unfolding eq split by auto
    next
      case nok: False
      with r solve_fail_81(1)[of "b[nat i := k]" "i + 1"] len idx
      have b2: "b2 = b[nat i := k]" by simp
      have eq: "tryValues b i k = tryValues (b[nat i := k]) i (k + 1)"
        using True lt r nok b2 by (simp add: tryValues_81[OF len idx])
      have l2: "length (b[nat i := k]) = 81" using len by simp
      have "(b[nat i := k]) ! nat i < k + 1" using li by simp
      from Suc(1)[OF n l2 k1 this] r nok show ?thesis
        unfolding eq split by auto
    qed
  qed
qed

lemma first_empty_find:
  assumes len: "length b = 81" and i: "0 \<le> i" "i \<le> 80" "b ! nat i = 0"
    and before: "\<forall>k. 0 \<le> k \<and> k < i \<longrightarrow> b ! nat k \<noteq> 0"
  shows "findNextFieldNotSetAlready b 0 = Inr i"
proof -
  from findNext_81[OF len, of 0] obtain j where
    j: "findNextFieldNotSetAlready b 0 = Inr j" "0 \<le> j" "j \<le> 81"
       "\<forall>k. 0 \<le> k \<and> k < j \<longrightarrow> b ! nat k \<noteq> 0" "j \<noteq> 81 \<longrightarrow> b ! nat j = 0"
    by auto
  have "\<not> i < j" using j(4) i(1,3) by blast
  moreover have "\<not> j < i" using before j(2,5) i(2) by force
  ultimately have "j = i" by simp
  with j(1) show ?thesis by simp
qed

lemma launch_81:
  assumes len: "length b = 81" and idx: "0 \<le> i" "i \<le> 80"
  shows "\<exists>rs. launch b i vs = Inr rs \<and>
           set rs = {r. \<exists>v\<in>set vs. legal b v i \<and> branch b i v = Inr r}"
proof (induction vs)
  case Nil
  then show ?case by simp
next
  case (Cons v vs)
  then obtain rs where rs: "launch b i vs = Inr rs"
    "set rs = {r. \<exists>v\<in>set vs. legal b v i \<and> branch b i v = Inr r}" by blast
  note vp = valuePossibleAt_legal[OF len idx, of v]
  show ?case
  proof (cases "legal b v i")
    case False
    with rs vp show ?thesis by auto
  next
    case True
    from solve_total(1)[of "b[nat i := v]" "i + 1"] len idx
    obtain ok c where "solveInner (b[nat i := v]) (i + 1) = Inr (ok, c)" by auto
    then have br: "branch b i v = Inr (ok, c)" by (simp add: branch_81[OF len idx])
    have "launch b i (v # vs) = Inr ((ok, c) # rs)" using True vp br rs(1) by simp
    moreover have "set ((ok, c) # rs) =
        {r. \<exists>v\<in>set (v # vs). legal b v i \<and> branch b i v = Inr r}"
      using True br rs(2) by auto
    ultimately show ?thesis by blast
  qed
qed

text \<open>A board that a solved board extends has digits only and no duplicate clues.\<close>

lemma extends_solved_consistent:
  assumes len: "length b = 81" and s: "solved s" and e: "extends b s"
  shows "consistent b" "\<forall>n<81. 0 \<le> b ! n \<and> b ! n \<le> 9"
proof -
  have d: "0 \<le> b ! n \<and> b ! n \<le> 9" if n: "n < 81" for n
  proof (cases "b ! n = 0")
    case True
    then show ?thesis by simp
  next
    case False
    with extends_nth[OF e] n len have "s ! n = b ! n" by simp
    with solved_digit[OF s, of "int n"] n show ?thesis by simp
  qed
  then show "\<forall>n<81. 0 \<le> b ! n \<and> b ! n \<le> 9" by blast
  show "consistent b"
    unfolding consistent_def
  proof (intro ballI impI)
    fix i j :: int
    assume i: "i \<in> {0..80}" and j: "j \<in> {0..80}"
      and h: "i \<noteq> j \<and> sameUnit i j \<and> b ! nat i \<noteq> 0"
    from i j len have li: "nat i < length b" and lj: "nat j < length b"
      by (simp_all add: nat_less_iff)
    from extends_nth[OF e li] h have si: "s ! nat i = b ! nat i" by simp
    show "b ! nat i \<noteq> b ! nat j"
    proof (cases "b ! nat j = 0")
      case True
      with h show ?thesis by simp
    next
      case False
      from extends_nth[OF e lj False] have sj: "s ! nat j = b ! nat j" .
      from i j have "0 \<le> i" "i \<le> 80" "0 \<le> j" "j \<le> 80" by simp_all
      from solved_differ[OF s this] h si sj show ?thesis by simp
    qed
  qed
qed

text \<open>
  A successful search from an index before which every cell is filled returns a solved
  board that keeps the clues, when the clues are digits without duplicates.
\<close>

lemma success_is_solution:
  assumes len: "length b = 81" and idx: "0 \<le> idx" "idx \<le> 81"
    and before: "\<forall>n. n < nat idx \<longrightarrow> b ! n \<noteq> 0"
    and cells: "\<forall>n<81. 0 \<le> b ! n \<and> b ! n \<le> 9"
    and c: "consistent b" and r: "solveInner b idx = Inr (True, b')"
  shows "solved b' \<and> extends b b'"
proof -
  have len': "length b' = 81" using solve_length(1)[OF r] len by simp
  note s = solve_success_81(1)[OF len idx, rule_format, OF r]
  note f = solve_frame_81(1)[OF len idx, rule_format, OF r]
  have c': "consistent b'" using s c by blast
  have d: "\<forall>n<81. 1 \<le> b' ! n \<and> b' ! n \<le> 9"
  proof (intro allI impI)
    fix n :: nat assume n: "n < 81"
    show "1 \<le> b' ! n \<and> b' ! n \<le> 9"
    proof (cases "b ! n = 0")
      case True
      with before have "nat idx \<le> n" by (meson not_le_imp_less)
      with s n have "b' ! n \<noteq> 0" by blast
      with s n True show ?thesis by blast
    next
      case False
      from f[OF n False] have e: "b' ! n = b ! n" .
      from cells n have "0 \<le> b ! n \<and> b ! n \<le> 9" by blast
      with e False show ?thesis by simp
    qed
  qed
  have "extends b b'" unfolding extends_def using len len' f by simp
  with consistent_filled_solved[OF len' c' d] show ?thesis by simp
qed

lemma decomposition_81:
  assumes len: "length b = 81" and i: "0 \<le> i" "i \<le> 80" "b ! nat i = 0"
    and before: "\<forall>k. 0 \<le> k \<and> k < i \<longrightarrow> b ! nat k \<noteq> 0"
  shows "solveInner b 0 = Inr (True, b') \<Longrightarrow>
           \<exists>v\<in>{1..9}. legal b v i \<and> branch b i v = Inr (True, b')"
    and "v \<in> {1..9} \<Longrightarrow> legal b v i \<Longrightarrow> branch b i v = Inr (True, c) \<Longrightarrow>
           \<exists>c'. solveInner b 0 = Inr (True, c')"
proof -
  have eq: "solveInner b 0 = tryValues b i 1"
    using first_empty_find[OF len i before] i(2) by (simp add: solveInner.simps)
  have id: "b[nat i := 0] = b" using i(3) by (metis list_update_id)
  have "b ! nat i < 1" using i(3) by simp
  note t = tryValues_candidates[where k=1 and b=b, OF len i(1,2) _ this, unfolded id, simplified]
  { assume "solveInner b 0 = Inr (True, b')"
    with t[of b'] eq obtain v where "1 \<le> v" "v \<le> 9" "legal b v i"
      "solveInner (b[nat i := v]) (i + 1) = Inr (True, b')" by auto
    then show "\<exists>v\<in>{1..9}. legal b v i \<and> branch b i v = Inr (True, b')"
      by (auto simp: branch_81[OF len i(1,2)]) }
  { assume "v \<in> {1..9}" "legal b v i" "branch b i v = Inr (True, c)"
    then have "1 \<le> v \<and> v \<le> 9 \<and> legal b v i \<and>
        solveInner (b[nat i := v]) (i + 1) = Inr (True, c)"
      by (simp add: branch_81[OF len i(1,2)])
    with t[of b'] eq show "\<exists>c'. solveInner b 0 = Inr (True, c')" by metis }
qed

text \<open>
  When exactly one solved board keeps the clues, the sequential search returns it and
  every goroutine that succeeds returns it.
\<close>

lemma unique_solution_81:
  assumes len: "length b = 81" and i: "0 \<le> i" "i \<le> 80" "b ! nat i = 0"
    and before: "\<forall>k. 0 \<le> k \<and> k < i \<longrightarrow> b ! nat k \<noteq> 0"
    and s: "solved s" and e: "extends b s"
    and only: "\<forall>s'. solved s' \<and> extends b s' \<longrightarrow> s' = s"
  shows "solveInner b 0 = Inr (True, s) \<and> SolveSequential b = Inr (FoundSolution s) \<and>
         Solve b = Inr {FoundSolution s}"
proof -
  from only have uniq: "\<And>s'. solved s' \<Longrightarrow> extends b s' \<Longrightarrow> s' = s" by blast
  note d = decomposition_81[OF len i before]
  note cons = extends_solved_consistent[OF len s e]
  from solve_complete_81(1)[OF len, of 0] s e
  obtain b' where r: "solveInner b 0 = Inr (True, b')" by auto
  from success_is_solution[OF len _ _ _ cons(2,1) r] have "solved b' \<and> extends b b'" by simp
  with uniq have "b' = s" by blast
  with r have seq: "solveInner b 0 = Inr (True, s)" by simp
  have id: "b[nat i := 0] = b" using i(3) by (metis list_update_id)
  have li: "nat i < length b" using i len by (simp add: nat_less_iff)
  have win: "c = s" if v: "v \<in> {1..9}" "legal b v i" "branch b i v = Inr (True, c)" for v c
  proof -
    let ?b = "b[nat i := v]"
    have r': "solveInner ?b (i + 1) = Inr (True, c)"
      using v(3) by (simp add: branch_81[OF len i(1,2)])
    have c1: "consistent ?b" using consistent_update[OF len i(1,2) _ v(2)] cons(1) id by simp
    have c2: "\<forall>n<81. 0 \<le> ?b ! n \<and> ?b ! n \<le> 9"
    proof (intro allI impI)
      fix n :: nat assume "n < 81"
      with cons(2) v(1) li show "0 \<le> ?b ! n \<and> ?b ! n \<le> 9"
        by (cases "n = nat i") simp_all
    qed
    have c3: "\<forall>n. n < nat (i + 1) \<longrightarrow> ?b ! n \<noteq> 0"
    proof (intro allI impI)
      fix n :: nat assume n: "n < nat (i + 1)"
      show "?b ! n \<noteq> 0"
      proof (cases "n = nat i")
        case True
        with v(1) li show ?thesis by simp
      next
        case False
        with n i(1) have "0 \<le> int n \<and> int n < i" by auto
        with before have "b ! nat (int n) \<noteq> 0" by blast
        with False show ?thesis by simp
      qed
    qed
    have l1: "length ?b = 81" "0 \<le> i + 1" "i + 1 \<le> 81" using len i by simp_all
    from success_is_solution[OF l1 c3 c2 c1 r'] have sc: "solved c" and ec: "extends ?b c" by simp_all
    have "extends b c"
      unfolding extends_def
    proof (intro conjI allI impI)
      show "length c = length b" using ec unfolding extends_def by simp
    next
      fix n assume n: "n < length b" "b ! n \<noteq> 0"
      with i(3) have "n \<noteq> nat i" by auto
      with n extends_nth[OF ec, of n] show "c ! n = b ! n" by simp
    qed
    with sc uniq show ?thesis by blast
  qed
  from d(1)[OF seq] obtain v where v: "v \<in> {1..9}" "legal b v i" "branch b i v = Inr (True, s)"
    by blast
  from launch_81[OF len i(1,2), of "[1..9]"] obtain rs where
    rs: "launch b i [1..9] = Inr rs"
        "set rs = {r. \<exists>v\<in>set [1..9]. legal b v i \<and> branch b i v = Inr r}" by blast
  have w: "set (map snd (filter fst rs)) = {s}"
  proof (intro equalityI subsetI)
    fix c assume "c \<in> set (map snd (filter fst rs))"
    then have "(True, c) \<in> set rs" by auto
    with rs(2) win show "c \<in> {s}" by auto
  next
    fix c assume "c \<in> {s}"
    with v rs(2) have "(True, c) \<in> set rs" by auto
    then show "c \<in> set (map snd (filter fst rs))" by force
  qed
  then have ne: "map snd (filter fst rs) \<noteq> []" by (metis empty_iff empty_set insertI1)
  have find: "findNextFieldNotSetAlready b 0 = Inr i" by (rule first_empty_find[OF len i before])
  have par: "Solve b = Inr {FoundSolution s}"
    unfolding Solve_def find using i(2) rs(1) ne w by (simp add: Let_def)
  have "SolveSequential b = Inr (FoundSolution s)" unfolding SolveSequential_def seq by simp
  with seq par
  show "solveInner b 0 = Inr (True, s) \<and> SolveSequential b = Inr (FoundSolution s) \<and>
        Solve b = Inr {FoundSolution s}" by simp
qed

text \<open>
  C3.  Let \<open>b\<close> be an 81-cell board and \<open>i\<close> its first empty cell.  The sequential
  search \<open>solveInner\<close> from index 0 succeeds exactly when some value \<open>v\<close> in \<open>1..9\<close> is
  legal at \<open>i\<close> and the goroutine body for \<open>v\<close> (a copy of the board with cell \<open>i\<close> set to
  \<open>v\<close>, searched from \<open>i + 1\<close>) succeeds.  If moreover \<open>s\<close> is the one solved board that
  keeps the clues of \<open>b\<close>, the sequential search returns \<open>s\<close>, and \<open>s\<close> is the only
  board the parallel \<open>Solve\<close> can report.
\<close>

theorem parallel_decomposition:
  assumes len: "length b = 81" and i: "0 \<le> i" "i \<le> 80" "b ! nat i = 0"
    and before: "\<forall>k. 0 \<le> k \<and> k < i \<longrightarrow> b ! nat k \<noteq> 0"
  shows "((\<exists>b'. solveInner b 0 = Inr (True, b')) =
          (\<exists>v\<in>{1..9}. valuePossibleAt b v i = Inr True \<and> (\<exists>b'. branch b i v = Inr (True, b')))) \<and>
         (solved s \<and> extends b s \<and> (\<forall>s'. solved s' \<and> extends b s' \<longrightarrow> s' = s) \<longrightarrow>
            solveInner b 0 = Inr (True, s) \<and> SolveSequential b = Inr (FoundSolution s) \<and>
            Solve b = Inr {FoundSolution s})"
proof (rule conjI)
  note d = decomposition_81[OF len i before]
  show "(\<exists>b'. solveInner b 0 = Inr (True, b')) =
        (\<exists>v\<in>{1..9}. valuePossibleAt b v i = Inr True \<and> (\<exists>b'. branch b i v = Inr (True, b')))"
    unfolding valuePossibleAt_legal[OF len i(1,2)] using d by (simp, blast)
next
  show "solved s \<and> extends b s \<and> (\<forall>s'. solved s' \<and> extends b s' \<longrightarrow> s' = s) \<longrightarrow>
            solveInner b 0 = Inr (True, s) \<and> SolveSequential b = Inr (FoundSolution s) \<and>
            Solve b = Inr {FoundSolution s}"
    using unique_solution_81[OF len i before] by blast
qed

section \<open>Puzzles with one solution\<close>

lemma forced_value:
  assumes len: "length b = 81" and s: "solved s" and e: "extends b s" and f: "forcedAt b i v"
  shows "s ! nat i = v"
proof (rule ccontr)
  assume ne: "s ! nat i \<noteq> v"
  from f have i: "0 \<le> i" "i \<le> 80" unfolding forcedAt_def by simp_all
  from solved_digit[OF s i] have "s ! nat i \<in> {1..9}" by simp
  with f ne have "s ! nat i \<in> set (seen b i)" unfolding forcedAt_def by blast
  then obtain j where j: "0 \<le> j" "j \<le> 80" "sameUnit i j" "j \<noteq> i" "b ! nat j = s ! nat i"
    unfolding seen_def by auto
  from solved_digit[OF s i] j(5) have nz: "b ! nat j \<noteq> 0" by simp
  have "nat j < length b" using j(1,2) len by (simp add: nat_less_iff)
  from extends_nth[OF e this nz] j(5) have "s ! nat j = s ! nat i" by simp
  moreover from solved_differ[OF s i j(1,2) _ j(3)] j(4) have "s ! nat i \<noteq> s ! nat j" by blast
  ultimately show False by simp
qed

lemma fillForced_extends:
  "fillForced b steps = Some b' \<Longrightarrow> length b = 81 \<Longrightarrow> solved s \<Longrightarrow> extends b s \<Longrightarrow>
     extends b' s"
proof (induction b steps rule: fillForced.induct)
  case (1 b)
  then show ?case by simp
next
  case (2 b i v steps)
  from "2.prems"(1) have f: "forcedAt b i v" and r: "fillForced (b[nat i := v]) steps = Some b'"
    by (simp_all split: if_splits)
  from forced_value[OF "2.prems"(2,3,4) f] have v: "s ! nat i = v" .
  have "extends (b[nat i := v]) s"
    unfolding extends_def
  proof (intro conjI allI impI)
    show "length s = length (b[nat i := v])" using "2.prems"(4) unfolding extends_def by simp
  next
    fix n assume n: "n < length (b[nat i := v])" "b[nat i := v] ! n \<noteq> 0"
    show "s ! n = b[nat i := v] ! n"
    proof (cases "n = nat i")
      case True
      with n v show ?thesis by simp
    next
      case False
      with n extends_nth[OF "2.prems"(4), of n] show ?thesis by simp
    qed
  qed
  with "2.IH"[OF f r _ "2.prems"(3)] "2.prems"(2) show ?case by simp
qed

lemma extends_filled: "extends b s \<Longrightarrow> 0 \<notin> set b \<Longrightarrow> s = b"
  unfolding extends_def by (intro nth_equalityI) (auto dest: filled_nth)

text \<open>Filling forced cells until none is empty shows that the result is the one solution.\<close>

lemma fillForced_unique:
  assumes "fillForced b steps = Some b'" "length b = 81" "0 \<notin> set b'"
  shows "\<forall>s. solved s \<and> extends b s \<longrightarrow> s = b'"
  using fillForced_extends[OF assms(1,2)] extends_filled[OF _ assms(3)] by blast

lemma example_forced: "fillForced exampleBoard exampleSteps = Some solvedExample"
  by code_simp

lemma extends_list_all2: "list_all2 (\<lambda>x y. x = 0 \<or> y = x) b s \<Longrightarrow> extends b s"
  unfolding extends_def list_all2_conv_all_nth by auto

lemma example_facts:
  "length exampleBoard = 81" "exampleBoard ! nat 2 = 0"
  "\<forall>k. 0 \<le> k \<and> k < 2 \<longrightarrow> exampleBoard ! nat k \<noteq> 0"
  "0 \<notin> set solvedExample" "extends exampleBoard solvedExample"
proof -
  show "length exampleBoard = 81" "exampleBoard ! nat 2 = 0" "0 \<notin> set solvedExample"
    by (simp_all add: exampleBoard_def solvedExample_def)
  show "\<forall>k. 0 \<le> k \<and> k < 2 \<longrightarrow> exampleBoard ! nat k \<noteq> 0"
  proof (intro allI impI)
    fix k :: int assume "0 \<le> k \<and> k < 2"
    then have "k = 0 \<or> k = 1" by auto
    then show "exampleBoard ! nat k \<noteq> 0" by (auto simp: exampleBoard_def)
  qed
  show "extends exampleBoard solvedExample"
    by (rule extends_list_all2) (simp add: exampleBoard_def solvedExample_def)
qed

lemma solvedExample_solved: "solved solvedExample"
  by code_simp

lemma example_unique: "\<forall>s. solved s \<and> extends exampleBoard s \<longrightarrow> s = solvedExample"
  by (rule fillForced_unique[OF example_forced example_facts(1,4)])

text \<open>
  C6.  On the example board the solver succeeds, and the board it ends with is exactly
  the solution given beside the example: \<open>solveInner\<close> from index 0 returns it, the
  sequential \<open>Solve\<close> reports it, and it is the only board the parallel \<open>Solve\<close> can
  report.
\<close>

theorem example_solved:
  "solveInner exampleBoard 0 = Inr (True, solvedExample) \<and>
   SolveSequential exampleBoard = Inr (FoundSolution solvedExample) \<and>
   Solve exampleBoard = Inr {FoundSolution solvedExample}"
  by (rule unique_solution_81[OF example_facts(1) _ _ example_facts(2,3)
        solvedExample_solved example_facts(5) example_unique]) simp_all

lemma twoBlanks_facts:
  "length twoBlanks = 81" "twoBlanks ! nat 2 = 0"
  "\<forall>k. 0 \<le> k \<and> k < 2 \<longrightarrow> twoBlanks ! nat k \<noteq> 0"
  "extends twoBlanks solvedExample"
  "\<forall>s. solved s \<and> extends twoBlanks s \<longrightarrow> s = solvedExample"
proof -
  show len: "length twoBlanks = 81" and "twoBlanks ! nat 2 = 0"
    by (simp_all add: twoBlanks_def solvedExample_def)
  show "\<forall>k. 0 \<le> k \<and> k < 2 \<longrightarrow> twoBlanks ! nat k \<noteq> 0"
  proof (intro allI impI)
    fix k :: int assume "0 \<le> k \<and> k < 2"
    then have "k = 0 \<or> k = 1" by auto
    then show "twoBlanks ! nat k \<noteq> 0" by (auto simp: twoBlanks_def solvedExample_def)
  qed
  show "extends twoBlanks solvedExample"
    by (rule extends_list_all2) (simp add: twoBlanks_def solvedExample_def)
  have "fillForced twoBlanks [(2, 4), (80, 9)] = Some solvedExample" by code_simp
  from fillForced_unique[OF this len example_facts(4)]
  show "\<forall>s. solved s \<and> extends twoBlanks s \<longrightarrow> s = solvedExample" .
qed

theorem parallel_decomposition_witness:
  "length twoBlanks = 81 \<and> twoBlanks ! nat 2 = 0 \<and> solved solvedExample \<and>
   extends twoBlanks solvedExample \<and>
   (\<exists>v\<in>{1..9}. valuePossibleAt twoBlanks v 2 = Inr True \<and>
      (\<exists>b'. branch twoBlanks 2 v = Inr (True, b'))) \<and>
   solveInner twoBlanks 0 = Inr (True, solvedExample) \<and>
   Solve twoBlanks = Inr {FoundSolution solvedExample}"
proof -
  note f = twoBlanks_facts
  have r: "(0::int) \<le> 2" "(2::int) \<le> 80" by simp_all
  note p = parallel_decomposition[OF f(1) r f(2,3), of solvedExample]
  from p solvedExample_solved f(4,5)
  have u: "solveInner twoBlanks 0 = Inr (True, solvedExample)"
    "Solve twoBlanks = Inr {FoundSolution solvedExample}" by blast+
  with p have "\<exists>v\<in>{1..9}. valuePossibleAt twoBlanks v 2 = Inr True \<and>
      (\<exists>b'. branch twoBlanks 2 v = Inr (True, b'))" by blast
  with u f(1,2,4) solvedExample_solved show ?thesis by blast
qed

section \<open>Filled boards and unsolvable boards\<close>

lemma filled_find:
  assumes "length b = 81" "0 \<notin> set b"
  shows "findNextFieldNotSetAlready b 0 = Inr 81"
proof -
  from findNext_81[OF assms(1), of 0] obtain j where
    j: "findNextFieldNotSetAlready b 0 = Inr j" "0 \<le> j" "j \<le> 81" "j \<noteq> 81 \<longrightarrow> b ! nat j = 0"
    by auto
  have "j = 81"
  proof (rule ccontr)
    assume "j \<noteq> 81"
    with j assms(1) have "b ! nat j = 0" "nat j < length b" by (simp_all add: nat_less_iff)
    with filled_nth[OF assms(2)] show False by blast
  qed
  with j(1) show ?thesis by simp
qed

text \<open>
  C9.  On an 81-cell board without an empty cell \<open>solveInner\<close> from index 0 returns
  success with the board untouched, and the parallel \<open>Solve\<close> reports the board as
  already set, whatever the cells hold: nothing is assumed about rows, columns or
  blocks, so this holds for boards that violate uniqueness as well.
\<close>

theorem filled_board_reported_solved:
  assumes "length b = 81" "0 \<notin> set b"
  shows "solveInner b 0 = Inr (True, b) \<and> Solve b = Inr {AllValuesSet b}"
  unfolding Solve_def solveInner.simps[of b 0] filled_find[OF assms] by simp

theorem filled_board_reported_solved_witness:
  "length allOnes = 81 \<and> 0 \<notin> set allOnes \<and> \<not> noDuplicates allOnes \<and>
   solveInner allOnes 0 = Inr (True, allOnes) \<and> Solve allOnes = Inr {AllValuesSet allOnes}"
proof -
  have l: "length allOnes = 81" and z: "0 \<notin> set allOnes" by (simp_all add: allOnes_def)
  have d: "\<not> noDuplicates allOnes" by code_simp
  from filled_board_reported_solved[OF l z] l z d show ?thesis by simp
qed

lemma unsolvable_fails:
  assumes w: "wellFormed b" and n: "noDuplicates b" and u: "unsolvable b"
  shows "solveInner b 0 = Inr (False, b)"
proof -
  from w have len: "length b = 81" and cells: "\<forall>x\<in>set b. 0 \<le> x \<and> x \<le> 9"
    unfolding wellFormed_def by simp_all
  have c2: "\<forall>n<81. 0 \<le> b ! n \<and> b ! n \<le> 9" using cells len by (metis nth_mem)
  from solve_total(1)[OF len, of 0] obtain ok b' where r: "solveInner b 0 = Inr (ok, b')"
    by auto
  have "\<not> ok"
  proof
    assume ok
    with r have "solveInner b 0 = Inr (True, b')" by simp
    from success_is_solution[OF len _ _ _ c2 noDuplicates_consistent[OF n] this]
    have "solved b' \<and> extends b b'" by simp
    with u show False unfolding unsolvable_def by blast
  qed
  with r solve_fail_81(1)[OF len, of 0] show ?thesis by simp
qed

lemma solvable_succeeds:
  assumes "length b = 81" "solveInner b 0 = Inr (False, b')"
  shows "unsolvable b"
  unfolding unsolvable_def using solve_complete_81(1)[OF assms(1), of 0] assms(2) by auto

text \<open>
  C5, as the code has it.  On an 81-cell board \<open>solveInner\<close> returns, with success or
  failure, from every start index in \<open>0..81\<close>; from a start index outside that range
  the first read is outside the slice and the call ends in a panic.  On a board of
  cells \<open>0..9\<close> whose filled cells violate no uniqueness and that no solved board
  extends, the call from index 0 reports failure.
\<close>

theorem solveInner_terminates:
  assumes "length b = 81"
  shows "(0 \<le> i \<and> i \<le> 81 \<longrightarrow> (\<exists>ok b'. solveInner b i = Inr (ok, b'))) \<and>
         (i < 0 \<or> 81 < i \<longrightarrow> solveInner b i = Inl IndexOutOfRange) \<and>
         (wellFormed b \<and> noDuplicates b \<and> unsolvable b \<longrightarrow> solveInner b 0 = Inr (False, b))"
  using solve_total(1)[OF assms, of i] solveInner_out_of_range[OF assms, of i] unsolvable_fails[of b]
  by blast

theorem solveInner_terminates_witness:
  "wellFormed deadEndBoard \<and> noDuplicates deadEndBoard \<and> unsolvable deadEndBoard \<and>
   solveInner deadEndBoard 0 = Inr (False, deadEndBoard) \<and>
   (\<exists>ok b'. solveInner deadEndBoard 81 = Inr (ok, b')) \<and>
   solveInner deadEndBoard 82 = Inl IndexOutOfRange"
proof -
  have w: "wellFormed deadEndBoard" and n: "noDuplicates deadEndBoard" by code_simp+
  have l: "length deadEndBoard = 81" by (simp add: deadEndBoard_def)
  have "solveInner deadEndBoard 0 = Inr (False, deadEndBoard)" by code_simp
  from solvable_succeeds[OF l this] have u: "unsolvable deadEndBoard" .
  from solveInner_terminates[OF l, of 0] w n u
  have a: "solveInner deadEndBoard 0 = Inr (False, deadEndBoard)" by blast
  from solveInner_terminates[OF l, of 81]
  have b: "\<exists>ok b'. solveInner deadEndBoard 81 = Inr (ok, b')" by simp
  from solveInner_terminates[OF l, of 82]
  have c: "solveInner deadEndBoard 82 = Inl IndexOutOfRange" by simp
  from w n u a b c show ?thesis by blast
qed

text \<open>
  The claim as it is worded fails: \<open>dupBoard\<close> has two 3s in its first row, so no solved
  board extends it, and the search fills its one empty cell and reports success; and
  from start index 82 the call panics.
\<close>

theorem solveInner_unsolvable_counterexample:
  "length dupBoard = 81 \<and> unsolvable dupBoard \<and>
   solveInner dupBoard 0 = Inr (True, solvedExample[0 := 3]) \<and>
   solveInner dupBoard 82 = Inl IndexOutOfRange"
proof -
  have l: "length dupBoard = 81" by (simp add: dupBoard_def solvedExample_def)
  have u: "unsolvable dupBoard"
    unfolding unsolvable_def
  proof
    assume "\<exists>s. solved s \<and> extends dupBoard s"
    then obtain s where s: "solved s" "extends dupBoard s" by blast
    have "dupBoard ! 0 = 3" "dupBoard ! 1 = 3" by (simp_all add: dupBoard_def solvedExample_def)
    with extends_nth[OF s(2), of 0] extends_nth[OF s(2), of 1] l
    have "s ! nat 0 = s ! nat 1" by simp
    moreover have "sameUnit 0 1" by (simp add: sameUnit_def)
    ultimately show False using solved_differ[OF s(1), of 0 1] by simp
  qed
  have r: "solveInner dupBoard 0 = Inr (True, solvedExample[0 := 3])" by code_simp
  have p: "solveInner dupBoard 82 = Inl IndexOutOfRange"
    by (rule solveInner_out_of_range[OF l]) simp
  from l u r p show ?thesis by blast
qed

end
